theory Spec2Isabelle
  imports
    Main
    "HOL-Library.AList"
    "HOL-Library.Char_ord"
    "HOL-Library.List_Lexorder"
    "HOL-Library.Multiset"
    "HOL-Library.Sublist"
begin

section \<open>Values of the program\<close>

text \<open>
  \<^verbatim>\<open>club_stats.py\<close> works on what \<^verbatim>\<open>json.loads\<close> returns: \<^verbatim>\<open>None\<close>, booleans,
  integers, strings, lists and dictionaries. A dictionary is an association list read
  with \<open>map_of\<close> (the first binding of a key is the binding) and written with
  \<open>AList.update\<close>, which keeps the position of a key that is already there and appends a
  new one, as a Python \<^verbatim>\<open>dict\<close> does. JSON numbers with a fraction or an exponent
  (Python \<^verbatim>\<open>float\<close>) are not part of the model.

  Strings are byte strings (UTF-8). Python orders \<^verbatim>\<open>str\<close> by code point; on UTF-8 that
  is the lexicographic order of the bytes, which is the order of \<open>string\<close> here.
\<close>

datatype json =
    JNull
  | JBool bool
  | JInt int
  | JStr string
  | JArr "json list"
  | JObj "(string \<times> json) list"

type_synonym dict = "(string \<times> json) list"

datatype exn = KeyError | TypeError | AttributeError | ValueError | OSError

text \<open>
  How a run can stop early: \<^verbatim>\<open>exit(n)\<close>, or an exception nobody catches (the
  interpreter prints the traceback and the process status is 1).
\<close>

datatype abort = SystemExit nat | Uncaught exn

definition EMPTY :: json where
  "EMPTY = JStr []"

definition dict_get :: "dict \<Rightarrow> string \<Rightarrow> exn + json" where
  "dict_get d k = (case map_of d k of None \<Rightarrow> Inl KeyError | Some v \<Rightarrow> Inr v)"

definition dict_set :: "string \<Rightarrow> json \<Rightarrow> dict \<Rightarrow> dict" where
  "dict_set k v d = AList.update k v d"

definition dict_values :: "dict \<Rightarrow> json list" where
  "dict_values d = map snd (AList.clearjunk d)"

definition dict_keys :: "dict \<Rightarrow> string list" where
  "dict_keys d = map fst (AList.clearjunk d)"

text \<open>\<^verbatim>\<open>v[k]\<close> with a string \<open>k\<close>: only a dictionary can be subscripted by a string.\<close>

fun py_getitem :: "json \<Rightarrow> string \<Rightarrow> exn + json" where
  "py_getitem (JObj d) k = dict_get d k"
| "py_getitem _ k = Inl TypeError"

text \<open>
  \<^verbatim>\<open>k in v\<close> with a string \<open>k\<close>: a key of a dictionary, an element of a list, a substring
  of a string; \<^verbatim>\<open>None\<close>, booleans and integers are not containers.
\<close>

fun py_contains :: "string \<Rightarrow> json \<Rightarrow> exn + bool" where
  "py_contains k (JObj d) = Inr (map_of d k \<noteq> None)"
| "py_contains k (JArr xs) = Inr (List.member xs (JStr k))"
| "py_contains k (JStr s) = Inr (sublist k s)"
| "py_contains k _ = Inl TypeError"

text \<open>
  \<^verbatim>\<open>for element in v\<close>: the elements of a list, the keys of a dictionary, the characters
  of a string (each a string of its own; the model yields one per byte).
\<close>

fun py_iter :: "json \<Rightarrow> exn + json list" where
  "py_iter (JArr xs) = Inr xs"
| "py_iter (JObj d) = Inr (map JStr (dict_keys d))"
| "py_iter (JStr s) = Inr (map (\<lambda>c. JStr [c]) s)"
| "py_iter _ = Inl TypeError"

text \<open>\<^verbatim>\<open>v.values()\<close>: only a dictionary has the method.\<close>

fun py_values :: "json \<Rightarrow> exn + json list" where
  "py_values (JObj d) = Inr (dict_values d)"
| "py_values _ = Inl AttributeError"

text \<open>\<^verbatim>\<open>v == 0\<close>: true of the integer zero and of \<^verbatim>\<open>False\<close>.\<close>

fun py_eq_zero :: "json \<Rightarrow> bool" where
  "py_eq_zero (JInt n) = (n = 0)"
| "py_eq_zero (JBool b) = (\<not> b)"
| "py_eq_zero _ = False"

section \<open>The network\<close>

text \<open>
  One \<^verbatim>\<open>urlopen\<close> and \<^verbatim>\<open>read\<close> either raises (\<open>Unreachable\<close>: every exception inside the
  \<^verbatim>\<open>try\<close> is caught by the bare \<^verbatim>\<open>except\<close>), or returns a body that \<^verbatim>\<open>json.loads\<close>
  rejects (\<open>Garbage\<close>), or returns a body that parses. The network is asked with the
  number of the call and the URL, so the same URL may answer differently when it is
  fetched again.
\<close>

datatype response = Unreachable | Garbage | Body json

type_synonym network = "nat \<Rightarrow> string \<Rightarrow> response"

definition CLUB_NAME :: string where
  "CLUB_NAME = ''mensa-argentina''"

definition PLOT :: bool where
  "PLOT = True"

definition roster_url :: string where
  "roster_url = ''https://api.chess.com/pub/club/'' @ CLUB_NAME @ ''/members''"

definition profile_url :: "string \<Rightarrow> string" where
  "profile_url u = ''https://api.chess.com/pub/player/'' @ u"

definition stats_url :: "string \<Rightarrow> string" where
  "stats_url u = ''https://api.chess.com/pub/player/'' @ u @ ''/stats''"

text \<open>
  The \<^verbatim>\<open>try\<close> block followed by \<^verbatim>\<open>json.loads(source)\<close>: a failed fetch prints the message
  and calls \<^verbatim>\<open>exit(1)\<close>; \<^verbatim>\<open>json.loads\<close> is outside the \<^verbatim>\<open>try\<close>, so its \<^verbatim>\<open>ValueError\<close>
  is not caught.
\<close>

fun fetch_json :: "response \<Rightarrow> abort + json" where
  "fetch_json Unreachable = Inl (SystemExit 1)"
| "fetch_json Garbage = Inl (Uncaught ValueError)"
| "fetch_json (Body v) = Inr v"

definition uncaught :: "exn + 'a \<Rightarrow> abort + 'a" where
  "uncaught r = (case r of Inl e \<Rightarrow> Inl (Uncaught e) | Inr v \<Rightarrow> Inr v)"

section \<open>Roster: lines 36 to 55\<close>

text \<open>
  The inner loop of lines 46 to 52: a new dictionary with the one key \<^verbatim>\<open>username\<close> for
  each element, appended to \<open>members\<close>.
\<close>

fun append_members :: "json list \<Rightarrow> dict list \<Rightarrow> exn + dict list" where
  "append_members [] members = Inr members"
| "append_members (element # rest) members =
     (case py_getitem element ''username'' of
        Inl e \<Rightarrow> Inl e
      | Inr u \<Rightarrow> append_members rest (members @ [dict_set ''username'' u []]))"

text \<open>The outer loop of line 44 over \<^verbatim>\<open>club_members.values()\<close>.\<close>

fun collect_buckets :: "json list \<Rightarrow> dict list \<Rightarrow> exn + dict list" where
  "collect_buckets [] members = Inr members"
| "collect_buckets (type_list # rest) members =
     (case py_iter type_list of
        Inl e \<Rightarrow> Inl e
      | Inr elements \<Rightarrow>
          (case append_members elements members of
             Inl e \<Rightarrow> Inl e
           | Inr members' \<Rightarrow> collect_buckets rest members'))"

definition collect_members :: "json \<Rightarrow> exn + dict list" where
  "collect_members club_members =
     (case py_values club_members of
        Inl e \<Rightarrow> Inl e
      | Inr buckets \<Rightarrow> collect_buckets buckets [])"

definition username_of :: "dict \<Rightarrow> json" where
  "username_of member = (case map_of member ''username'' of Some u \<Rightarrow> u | None \<Rightarrow> JNull)"

fun is_str :: "json \<Rightarrow> bool" where
  "is_str (JStr s) = True"
| "is_str _ = False"

fun str_of :: "json \<Rightarrow> string" where
  "str_of (JStr s) = s"
| "str_of _ = []"

fun is_num :: "json \<Rightarrow> bool" where
  "is_num (JInt n) = True"
| "is_num (JBool b) = True"
| "is_num _ = False"

fun num_of :: "json \<Rightarrow> int" where
  "num_of (JInt n) = n"
| "num_of (JBool b) = (if b then 1 else 0)"
| "num_of _ = 0"

text \<open>
  Line 55, \<^verbatim>\<open>members.sort(key=lambda i: i["username"])\<close>. Python's sort is stable and
  compares the keys with \<^verbatim>\<open><\<close>; a list shorter than two is returned without any
  comparison. String keys are ordered as strings, numbers (with \<^verbatim>\<open>True\<close> as 1 and
  \<^verbatim>\<open>False\<close> as 0) as numbers. Every other choice of keys raises \<^verbatim>\<open>TypeError\<close> in the
  model: that is what Python does when a key is \<^verbatim>\<open>None\<close> or a dictionary and when the
  keys are of mixed kinds. Keys that are all lists Python compares element by element,
  which the model does not follow; no statement below is about such keys.
\<close>

definition sort_members :: "dict list \<Rightarrow> exn + dict list" where
  "sort_members members =
     (if length members < 2 then Inr members
      else if list_all (\<lambda>m. is_str (username_of m)) members
      then Inr (sort_key (\<lambda>m. str_of (username_of m)) members)
      else if list_all (\<lambda>m. is_num (username_of m)) members
      then Inr (sort_key (\<lambda>m. num_of (username_of m)) members)
      else Inl TypeError)"

definition load_roster :: "json \<Rightarrow> exn + dict list" where
  "load_roster club_members =
     (case collect_members club_members of
        Inl e \<Rightarrow> Inl e
      | Inr members \<Rightarrow> sort_members members)"

section \<open>Profiles: lines 65 to 82\<close>

text \<open>\<^verbatim>\<open>player_data[k] if k in player_data else ""\<close>.\<close>

definition get_or_empty :: "json \<Rightarrow> string \<Rightarrow> exn + json" where
  "get_or_empty player_data k =
     (case py_contains k player_data of
        Inl e \<Rightarrow> Inl e
      | Inr b \<Rightarrow> if b then py_getitem player_data k else Inr EMPTY)"

definition enrich_profile :: "dict \<Rightarrow> json \<Rightarrow> exn + dict" where
  "enrich_profile member player_data =
     (case get_or_empty player_data ''name'' of
        Inl e \<Rightarrow> Inl e
      | Inr n \<Rightarrow>
     (case get_or_empty player_data ''location'' of
        Inl e \<Rightarrow> Inl e
      | Inr l \<Rightarrow>
     (case get_or_empty player_data ''status'' of
        Inl e \<Rightarrow> Inl e
      | Inr s \<Rightarrow>
          Inr (dict_set ''status'' s (dict_set ''location'' l (dict_set ''name'' n member))))))"

text \<open>\<^verbatim>\<open>p + v\<close> for a string \<open>p\<close>: only a string can be added to a string.\<close>

fun str_add :: "string \<Rightarrow> json \<Rightarrow> exn + string" where
  "str_add p (JStr s) = Inr (p @ s)"
| "str_add p _ = Inl TypeError"

definition profile_request :: "dict \<Rightarrow> exn + string" where
  "profile_request member =
     (case dict_get member ''username'' of
        Inl e \<Rightarrow> Inl e
      | Inr u \<Rightarrow> str_add ''https://api.chess.com/pub/player/'' u)"

text \<open>
  One turn of the loop of line 65. The URL is built inside the \<^verbatim>\<open>try\<close>, so an exception
  there ends in \<^verbatim>\<open>exit(1)\<close> as a failed fetch does.
\<close>

definition profile_member :: "network \<Rightarrow> nat \<Rightarrow> dict \<Rightarrow> abort + dict" where
  "profile_member net call member =
     (case profile_request member of
        Inl e \<Rightarrow> Inl (SystemExit 1)
      | Inr url \<Rightarrow>
          (case fetch_json (net call url) of
             Inl a \<Rightarrow> Inl a
           | Inr player_data \<Rightarrow> uncaught (enrich_profile member player_data)))"

text \<open>
  \<^verbatim>\<open>for member in members:\<close> with a body that fetches and updates the member; the
  first abort ends the loop. The call number grows by one with each member.
\<close>

fun for_members ::
  "(nat \<Rightarrow> dict \<Rightarrow> abort + dict) \<Rightarrow> nat \<Rightarrow> dict list \<Rightarrow> abort + dict list" where
  "for_members body call [] = Inr []"
| "for_members body call (member # rest) =
     (case body call member of
        Inl a \<Rightarrow> Inl a
      | Inr member' \<Rightarrow>
          (case for_members body (Suc call) rest of
             Inl a \<Rightarrow> Inl a
           | Inr rest' \<Rightarrow> Inr (member' # rest')))"

definition profile_stage :: "network \<Rightarrow> nat \<Rightarrow> dict list \<Rightarrow> abort + dict list" where
  "profile_stage net call members = for_members (profile_member net) call members"

section \<open>Statistics: lines 85 to 134\<close>

definition rating_lists :: "(string \<times> string) list" where
  "rating_lists =
     [(''chess_daily'', ''last''),
      (''chess_rapid'', ''last''),
      (''chess_blitz'', ''last''),
      (''chess_bullet'', ''last''),
      (''chess960_daily'', ''last''),
      (''tactics'', ''highest''),
      (''lessons'', ''highest'')]"

text \<open>Lines 113 to 115.\<close>

definition set_fide :: "dict \<Rightarrow> json \<Rightarrow> exn + dict" where
  "set_fide member player_data =
     (case get_or_empty player_data ''fide'' of
        Inl e \<Rightarrow> Inl e
      | Inr v \<Rightarrow>
          (let member1 = dict_set ''fide'' v member
           in Inr (if py_eq_zero v then dict_set ''fide'' EMPTY member1 else member1)))"

text \<open>\<^verbatim>\<open>player_data[k1][k2][k3]\<close>.\<close>

definition path3 :: "json \<Rightarrow> string \<Rightarrow> string \<Rightarrow> string \<Rightarrow> exn + json" where
  "path3 player_data k1 k2 k3 =
     (case py_getitem player_data k1 of
        Inl e \<Rightarrow> Inl e
      | Inr a \<Rightarrow>
          (case py_getitem a k2 of
             Inl e \<Rightarrow> Inl e
           | Inr b \<Rightarrow> py_getitem b k3))"

text \<open>\<^verbatim>\<open>try: ... except KeyError: ""\<close>: no other exception is caught.\<close>

fun except_KeyError :: "exn + json \<Rightarrow> exn + json" where
  "except_KeyError (Inl KeyError) = Inr EMPTY"
| "except_KeyError (Inl e) = Inl e"
| "except_KeyError (Inr v) = Inr v"

text \<open>Lines 118 to 123.\<close>

definition set_puzzle_rush :: "dict \<Rightarrow> json \<Rightarrow> exn + dict" where
  "set_puzzle_rush member player_data =
     (case except_KeyError (path3 player_data ''puzzle_rush'' ''best'' ''score'') of
        Inl e \<Rightarrow> Inl e
      | Inr v \<Rightarrow> Inr (dict_set ''puzzle_rush'' v member))"

text \<open>The loop of lines 126 to 134 over the entries of \<open>rating_lists\<close>.\<close>

fun set_ratings :: "(string \<times> string) list \<Rightarrow> json \<Rightarrow> dict \<Rightarrow> exn + dict" where
  "set_ratings [] player_data member = Inr member"
| "set_ratings ((rating_type, selector) # rest) player_data member =
     (case except_KeyError (path3 player_data rating_type selector ''rating'') of
        Inl e \<Rightarrow> Inl e
      | Inr v \<Rightarrow> set_ratings rest player_data (dict_set rating_type v member))"

definition enrich_stats :: "dict \<Rightarrow> json \<Rightarrow> exn + dict" where
  "enrich_stats member player_data =
     (case set_fide member player_data of
        Inl e \<Rightarrow> Inl e
      | Inr member1 \<Rightarrow>
          (case set_puzzle_rush member1 player_data of
             Inl e \<Rightarrow> Inl e
           | Inr member2 \<Rightarrow> set_ratings rating_lists player_data member2))"

definition stats_request :: "dict \<Rightarrow> exn + string" where
  "stats_request member =
     (case dict_get member ''username'' of
        Inl e \<Rightarrow> Inl e
      | Inr u \<Rightarrow>
          (case str_add ''https://api.chess.com/pub/player/'' u of
             Inl e \<Rightarrow> Inl e
           | Inr s \<Rightarrow> Inr (s @ ''/stats'')))"

definition stats_member :: "network \<Rightarrow> nat \<Rightarrow> dict \<Rightarrow> abort + dict" where
  "stats_member net call member =
     (case stats_request member of
        Inl e \<Rightarrow> Inl (SystemExit 1)
      | Inr url \<Rightarrow>
          (case fetch_json (net call url) of
             Inl a \<Rightarrow> Inl a
           | Inr player_data \<Rightarrow> uncaught (enrich_stats member player_data)))"

definition stats_stage :: "network \<Rightarrow> nat \<Rightarrow> dict list \<Rightarrow> abort + dict list" where
  "stats_stage net call members = for_members (stats_member net) call members"

section \<open>The run up to the report: lines 26 to 175\<close>

text \<open>
  Call 0 is the roster, calls \<open>1\<close> to \<open>n\<close> are the profiles of the \<open>n\<close> members in list
  order, calls \<open>n + 1\<close> to \<open>2 n\<close> their statistics. \<open>Inr members\<close> is the list that line
  138 hands to \<^verbatim>\<open>DataFrame\<close>.
\<close>

definition pipeline :: "network \<Rightarrow> abort + dict list" where
  "pipeline net =
     (case fetch_json (net 0 roster_url) of
        Inl a \<Rightarrow> Inl a
      | Inr club_members \<Rightarrow>
          (case uncaught (load_roster club_members) of
             Inl a \<Rightarrow> Inl a
           | Inr members \<Rightarrow>
               (case profile_stage net 1 members of
                  Inl a \<Rightarrow> Inl a
                | Inr members1 \<Rightarrow> stats_stage net (Suc (length members)) members1)))"

definition columns :: "string list" where
  "columns =
     [''username'', ''name'', ''fide'', ''chess_daily'', ''chess_rapid'', ''chess_blitz'',
      ''chess_bullet'', ''chess960_daily'', ''tactics'', ''lessons'', ''puzzle_rush'',
      ''location'', ''status'']"

definition header :: "string list" where
  "header =
     [''Username'', ''Name'', ''FIDE'', ''Daily'', ''Rapid'', ''Blitz'', ''Bullet'',
      ''960 Daily'', ''Tactics'', ''Lessons'', ''Puzzle'', ''Location'', ''Status'']"

text \<open>
  What \<^verbatim>\<open>DataFrame(members).to_excel(..., columns=..., header=...)\<close> is given: one row for
  each member in list order, holding the member's values under the selected columns (a
  missing key is an empty cell). Writing the file is the library's work and is not
  modelled.
\<close>

definition export_rows :: "dict list \<Rightarrow> json option list list" where
  "export_rows members = map (\<lambda>member. map (map_of member) columns) members"

section \<open>The chart input: lines 184 to 214\<close>

definition rating_types :: "string list" where
  "rating_types =
     [''chess_daily'', ''chess_rapid'', ''chess_blitz'', ''chess_bullet'',
      ''chess960_daily'', ''tactics'']"

text \<open>
  \<^verbatim>\<open>int(v)\<close>. What Python's \<^verbatim>\<open>int\<close> makes of a string is the parameter \<open>int_of_str\<close>;
  the built-in is not part of this program.
\<close>

fun py_int :: "(string \<Rightarrow> exn + int) \<Rightarrow> json \<Rightarrow> exn + int" where
  "py_int int_of_str (JInt n) = Inr n"
| "py_int int_of_str (JBool b) = Inr (if b then 1 else 0)"
| "py_int int_of_str (JStr s) = int_of_str s"
| "py_int int_of_str _ = Inl TypeError"

text \<open>Line 209 for one rating type.\<close>

definition rating_entry :: "(string \<Rightarrow> exn + int) \<Rightarrow> dict \<Rightarrow> string \<Rightarrow> exn + int" where
  "rating_entry int_of_str member t =
     (case dict_get member t of
        Inl e \<Rightarrow> Inl e
      | Inr v \<Rightarrow> if v \<noteq> EMPTY then py_int int_of_str v else Inr 800)"

text \<open>The loop of line 207, appending to the list \<open>acc\<close>.\<close>

fun member_ratings ::
  "(string \<Rightarrow> exn + int) \<Rightarrow> dict \<Rightarrow> string list \<Rightarrow> int list \<Rightarrow> exn + int list" where
  "member_ratings int_of_str member [] acc = Inr acc"
| "member_ratings int_of_str member (t # ts) acc =
     (case rating_entry int_of_str member t of
        Inl e \<Rightarrow> Inl e
      | Inr r \<Rightarrow> member_ratings int_of_str member ts (acc @ [r]))"

text \<open>
  A dictionary key has to be hashable, and \<^verbatim>\<open>True\<close> and \<^verbatim>\<open>1\<close> are the same key.
\<close>

fun hash_key :: "json \<Rightarrow> exn + json" where
  "hash_key (JArr xs) = Inl TypeError"
| "hash_key (JObj d) = Inl TypeError"
| "hash_key (JBool b) = Inr (JInt (if b then 1 else 0))"
| "hash_key v = Inr v"

text \<open>The loop of line 202 filling the dictionary \<open>ratings\<close>.\<close>

fun fill_ratings ::
  "(string \<Rightarrow> exn + int) \<Rightarrow> dict list \<Rightarrow> (json \<times> int list) list
     \<Rightarrow> exn + (json \<times> int list) list" where
  "fill_ratings int_of_str [] ratings = Inr ratings"
| "fill_ratings int_of_str (member # rest) ratings =
     (case dict_get member ''username'' of
        Inl e \<Rightarrow> Inl e
      | Inr uid \<Rightarrow>
          (case hash_key uid of
             Inl e \<Rightarrow> Inl e
           | Inr k \<Rightarrow>
               (case member_ratings int_of_str member rating_types [] of
                  Inl e \<Rightarrow> Inl e
                | Inr rs \<Rightarrow> fill_ratings int_of_str rest (AList.update k rs ratings))))"

text \<open>
  The loop of line 212: what each \<^verbatim>\<open>plt.plot(rating_names, ratings[uid], label=uid)\<close>
  receives, as the pair of the label and the vector.
\<close>

fun plot_calls :: "(json \<times> int list) list \<Rightarrow> dict list \<Rightarrow> exn + (json \<times> int list) list" where
  "plot_calls ratings [] = Inr []"
| "plot_calls ratings (member # rest) =
     (case dict_get member ''username'' of
        Inl e \<Rightarrow> Inl e
      | Inr uid \<Rightarrow>
          (case hash_key uid of
             Inl e \<Rightarrow> Inl e
           | Inr k \<Rightarrow>
               (case map_of ratings k of
                  None \<Rightarrow> Inl KeyError
                | Some rs \<Rightarrow>
                    (case plot_calls ratings rest of
                       Inl e \<Rightarrow> Inl e
                     | Inr calls \<Rightarrow> Inr ((uid, rs) # calls)))))"

definition chart_input ::
  "(string \<Rightarrow> exn + int) \<Rightarrow> dict list \<Rightarrow> exn + (json \<times> int list) list" where
  "chart_input int_of_str members =
     (case fill_ratings int_of_str members [] of
        Inl e \<Rightarrow> Inl e
      | Inr ratings \<Rightarrow> plot_calls ratings members)"

section \<open>The whole run\<close>

text \<open>
  The calls into pandas, matplotlib and the built-in \<^verbatim>\<open>int\<close> are not code of this
  program; what they do is taken as given. \<open>to_excel\<close> says whether
  \<^verbatim>\<open>DataFrame(members).to_excel(...)\<close> raises for a list of members (pandas raises
  \<^verbatim>\<open>KeyError\<close> when a selected column is in no record, as with no members at all),
  \<open>style_use\<close> whether \<^verbatim>\<open>plt.style.use("seaborn-dark")\<close> raises (matplotlib raises
  \<^verbatim>\<open>OSError\<close> where the style does not exist), \<open>int_str\<close> what \<^verbatim>\<open>int\<close> makes of a
  string.
\<close>

record libraries =
  to_excel :: "dict list \<Rightarrow> exn option"
  style_use :: "exn option"
  int_str :: "string \<Rightarrow> exn + int"

text \<open>
  The first component is what \<^verbatim>\<open>to_excel\<close> is called with, and \<open>None\<close> when line 138 is
  never reached; the second is how the process ends: an abort of the stages before, an
  exception of \<^verbatim>\<open>to_excel\<close>, \<^verbatim>\<open>exit(0)\<close> when no chart is wanted, an exception of
  \<^verbatim>\<open>style.use\<close> or of the chart preparation, or the calls made to \<^verbatim>\<open>plt.plot\<close>. What
  the plotting calls do with what they are given, and the progress messages, are outside
  the model.
\<close>

definition run ::
  "libraries \<Rightarrow> network
     \<Rightarrow> (string list \<times> json option list list) option \<times> (abort + (json \<times> int list) list)" where
  "run libs net =
     (case pipeline net of
        Inl a \<Rightarrow> (None, Inl a)
      | Inr members \<Rightarrow>
          (Some (header, export_rows members),
           case to_excel libs members of
             Some e \<Rightarrow> Inl (Uncaught e)
           | None \<Rightarrow>
               if PLOT = False then Inl (SystemExit 0)
               else (case style_use libs of
                       Some e \<Rightarrow> Inl (Uncaught e)
                     | None \<Rightarrow> uncaught (chart_input (int_str libs) members))))"

fun exit_status :: "abort + 'a \<Rightarrow> nat" where
  "exit_status (Inl (SystemExit n)) = n"
| "exit_status (Inl (Uncaught e)) = 1"
| "exit_status (Inr v) = 0"

section \<open>Notions used to state the properties\<close>

text \<open>
  The eight fields that are read through a path of three keys: the key of the member
  record, which is also the first key of the path, with the second and third key.
\<close>

definition nested_fields :: "(string \<times> string \<times> string) list" where
  "nested_fields =
     (''puzzle_rush'', ''best'', ''score'') # map (\<lambda>(t, sel). (t, sel, ''rating'')) rating_lists"

text \<open>What lines 118 to 134 store for such a field.\<close>

fun field_value :: "json \<Rightarrow> string \<times> string \<times> string \<Rightarrow> exn + json" where
  "field_value player_data (k1, k2, k3) = except_KeyError (path3 player_data k1 k2 k3)"

text \<open>
  Every value that is subscripted on the way along a path is a dictionary: the walk ends
  at the first absent key or after the last key.
\<close>

fun segments_ok :: "json \<Rightarrow> string list \<Rightarrow> bool" where
  "segments_ok v [] = True"
| "segments_ok (JObj d) (k # ks) =
     (case map_of d k of None \<Rightarrow> True | Some v \<Rightarrow> segments_ok v ks)"
| "segments_ok _ (k # ks) = False"

text \<open>A key of the path is absent, every value before it being a dictionary.\<close>

fun segment_missing :: "json \<Rightarrow> string list \<Rightarrow> bool" where
  "segment_missing v [] = False"
| "segment_missing (JObj d) (k # ks) =
     (case map_of d k of None \<Rightarrow> True | Some v \<Rightarrow> segment_missing v ks)"
| "segment_missing _ (k # ks) = False"

text \<open>
  The roster as the specification describes it: a mapping from bucket names to sequences
  of member objects, each with a string under \<^verbatim>\<open>username\<close>; and the \<^verbatim>\<open>username\<close> values
  of all buckets, in the order of the response.
\<close>

fun element_username :: "json \<Rightarrow> json option" where
  "element_username (JObj d) = map_of d ''username''"
| "element_username _ = None"

fun bucket_usernames :: "json \<Rightarrow> json list" where
  "bucket_usernames (JArr es) = List.map_filter element_username es"
| "bucket_usernames _ = []"

fun roster_usernames :: "json \<Rightarrow> json list" where
  "roster_usernames (JObj buckets) = concat (map bucket_usernames (dict_values buckets))"
| "roster_usernames _ = []"

fun is_member_object :: "json \<Rightarrow> bool" where
  "is_member_object (JObj d) = (case map_of d ''username'' of Some (JStr u) \<Rightarrow> True | _ \<Rightarrow> False)"
| "is_member_object _ = False"

fun is_bucket :: "json \<Rightarrow> bool" where
  "is_bucket (JArr es) = list_all is_member_object es"
| "is_bucket _ = False"

fun wf_roster :: "json \<Rightarrow> bool" where
  "wf_roster (JObj buckets) = list_all is_bucket (dict_values buckets)"
| "wf_roster _ = False"

definition roster_names :: "json \<Rightarrow> string list" where
  "roster_names club_members = map str_of (roster_usernames club_members)"

text \<open>
  The identities in the words of the specification: the union of the usernames with
  duplicates collapsed, sorted ascending.
\<close>

definition spec_identities :: "json \<Rightarrow> string list" where
  "spec_identities club_members = sort (remdups (roster_names club_members))"

definition usernames :: "dict list \<Rightarrow> json list" where
  "usernames members = map username_of members"

text \<open>The optional attributes of a member record.\<close>

definition optional_attributes :: "string list" where
  "optional_attributes =
     [''name'', ''location'', ''status'', ''fide'', ''puzzle_rush'', ''chess_daily'',
      ''chess_rapid'', ''chess_blitz'', ''chess_bullet'', ''chess960_daily'', ''tactics'',
      ''lessons'']"

text \<open>
  Where an attribute comes from: the value under the attribute's key in the profile
  response, under \<^verbatim>\<open>fide\<close> in the statistics response, or at the end of the attribute's
  path in the statistics response.
\<close>

definition source_value :: "json \<Rightarrow> json \<Rightarrow> string \<Rightarrow> exn + json" where
  "source_value profile stats k =
     (if k \<in> set [''name'', ''location'', ''status''] then py_getitem profile k
      else if k = ''fide'' then py_getitem stats k
      else (case map_of nested_fields k of
              None \<Rightarrow> Inl KeyError
            | Some (k2, k3) \<Rightarrow> path3 stats k k2 k3))"

definition attributes_null_free :: "dict \<Rightarrow> bool" where
  "attributes_null_free member =
     list_all (\<lambda>k. map_of member k \<noteq> None \<and> map_of member k \<noteq> Some JNull) optional_attributes"

text \<open>
  The chart vector in the words of the specification: 800 for the empty sentinel, the
  integer otherwise, in the order of \<open>rating_types\<close>.
\<close>

definition rating_vector :: "dict \<Rightarrow> int list" where
  "rating_vector member =
     map (\<lambda>t. case map_of member t of Some (JInt n) \<Rightarrow> n | _ \<Rightarrow> 800) rating_types"

definition sentinel_or_int :: "dict \<Rightarrow> bool" where
  "sentinel_or_int member =
     list_all (\<lambda>t. case map_of member t of
                     Some (JInt n) \<Rightarrow> True
                   | Some v \<Rightarrow> v = EMPTY
                   | None \<Rightarrow> False) rating_types"

section \<open>Example inputs\<close>

text \<open>
  The roster of the specification's scenario, a network that answers every call of a run
  over it, and a network whose one profile carries \<^verbatim>\<open>"name": null\<close>.
\<close>

definition example_roster :: json where
  "example_roster =
     JObj [(''weekly'', JArr [JObj [(''username'', JStr ''alice'')]]),
           (''all_time'', JArr [JObj [(''username'', JStr ''Bob'')],
                               JObj [(''username'', JStr ''alice'')]])]"

definition example_network :: network where
  "example_network call url =
     (if call = 0 then Body example_roster
      else if call \<le> 3 then Body (JObj [(''name'', JStr ''A. Player''), (''status'', JStr ''basic'')])
      else Body (JObj [(''fide'', JInt 0),
                       (''tactics'', JObj [(''highest'', JObj [(''rating'', JInt 1500)]),
                                          (''last'', JObj [(''rating'', JInt 1200)])])]))"

definition example_record :: "string \<Rightarrow> dict" where
  "example_record u =
     [(''username'', JStr u), (''name'', JStr ''A. Player''), (''location'', JStr []),
      (''status'', JStr ''basic''), (''fide'', JStr []), (''puzzle_rush'', JStr []),
      (''chess_daily'', JStr []), (''chess_rapid'', JStr []), (''chess_blitz'', JStr []),
      (''chess_bullet'', JStr []), (''chess960_daily'', JStr []), (''tactics'', JInt 1500),
      (''lessons'', JStr [])]"

text \<open>The same network with the fetch of call \<open>k\<close> failing.\<close>

definition failing_network :: "nat \<Rightarrow> network" where
  "failing_network k call url = (if call = k then Unreachable else example_network call url)"

text \<open>
  Libraries that raise nothing, with an \<^verbatim>\<open>int\<close> that rejects every string; a roster that
  lists \<^verbatim>\<open>alice\<close> in two buckets with a network whose statistics for her change between
  the two fetches; and the record such a run makes of a username and a daily rating.
\<close>

definition no_int_of_str :: "string \<Rightarrow> exn + int" where
  "no_int_of_str s = Inl ValueError"

definition example_libraries :: libraries where
  "example_libraries =
     \<lparr>to_excel = (\<lambda>members. None), style_use = None, int_str = no_int_of_str\<rparr>"

definition repeated_roster :: json where
  "repeated_roster =
     JObj [(''weekly'', JArr [JObj [(''username'', JStr ''alice'')]]),
           (''all_time'', JArr [JObj [(''username'', JStr ''alice'')]])]"

definition changing_network :: network where
  "changing_network call url =
     (if call = 0 then Body repeated_roster
      else if call \<le> 2 then Body (JObj [])
      else if call = 3
      then Body (JObj [(''chess_daily'', JObj [(''last'', JObj [(''rating'', JInt 1000)])])])
      else Body (JObj [(''chess_daily'', JObj [(''last'', JObj [(''rating'', JInt 2000)])])]))"

definition rated_record :: "string \<Rightarrow> int \<Rightarrow> dict" where
  "rated_record u n =
     [(''username'', JStr u), (''name'', JStr []), (''location'', JStr []),
      (''status'', JStr []), (''fide'', JStr []), (''puzzle_rush'', JStr []),
      (''chess_daily'', JInt n), (''chess_rapid'', JStr []), (''chess_blitz'', JStr []),
      (''chess_bullet'', JStr []), (''chess960_daily'', JStr []), (''tactics'', JStr []),
      (''lessons'', JStr [])]"

definition null_name_network :: network where
  "null_name_network call url =
     (if call = 0 then Body (JObj [(''all_time'', JArr [JObj [(''username'', JStr ''alice'')]])])
      else if call = 1 then Body (JObj [(''name'', JNull)])
      else Body (JObj []))"

definition null_name_record :: dict where
  "null_name_record =
     [(''username'', JStr ''alice''), (''name'', JNull), (''location'', JStr []),
      (''status'', JStr []), (''fide'', JStr []), (''puzzle_rush'', JStr []),
      (''chess_daily'', JStr []), (''chess_rapid'', JStr []), (''chess_blitz'', JStr []),
      (''chess_bullet'', JStr []), (''chess960_daily'', JStr []), (''tactics'', JStr []),
      (''lessons'', JStr [])]"

section \<open>Dictionaries and the statistics fields\<close>

lemma map_of_dict_set: "map_of (dict_set k v d) = (map_of d)(k \<mapsto> v)"
  by (simp add: dict_set_def update_conv')

lemma dict_set_twice: "dict_set k v (dict_set k w d) = dict_set k v d"
  by (simp add: dict_set_def)

lemma get_or_empty_obj:
  "get_or_empty (JObj d) k = Inr (case map_of d k of None \<Rightarrow> EMPTY | Some v \<Rightarrow> v)"
  by (simp add: get_or_empty_def dict_get_def split: option.splits)

lemma path3_obj_cong:
  "map_of d k1 = map_of d' k1 \<Longrightarrow> path3 (JObj d) k1 k2 k3 = path3 (JObj d') k1 k2 k3"
  by (simp add: path3_def dict_get_def)

lemma set_ratings_cong:
  "\<forall>t \<in> fst ` set rl. map_of d t = map_of d' t \<Longrightarrow>
   set_ratings rl (JObj d) m = set_ratings rl (JObj d') m"
proof (induction rl arbitrary: m)
  case Nil
  show ?case by simp
next
  case (Cons e rl)
  obtain t s where e: "e = (t, s)" by (cases e)
  from Cons.prems e have "map_of d t = map_of d' t" by simp
  then have p: "path3 (JObj d) t s ''rating'' = path3 (JObj d') t s ''rating''"
    by (rule path3_obj_cong)
  from Cons.prems have "\<forall>t \<in> fst ` set rl. map_of d t = map_of d' t" by simp
  then have "\<And>m. set_ratings rl (JObj d) m = set_ratings rl (JObj d') m"
    by (rule Cons.IH)
  with p e show ?case by (simp split: sum.splits)
qed

lemma set_ratings_other:
  "set_ratings rl pd m = Inr m' \<Longrightarrow> k \<notin> fst ` set rl \<Longrightarrow> map_of m' k = map_of m k"
proof (induction rl arbitrary: m)
  case Nil
  then show ?case by simp
next
  case (Cons e rl)
  obtain t s where e: "e = (t, s)" by (cases e)
  from Cons.prems(1) e obtain v where
    v: "except_KeyError (path3 pd t s ''rating'') = Inr v"
    and r: "set_ratings rl pd (dict_set t v m) = Inr m'"
    by (auto split: sum.splits)
  from Cons.prems(2) e have kt: "k \<noteq> t" and kr: "k \<notin> fst ` set rl" by auto
  from Cons.IH [OF r kr] kt show ?case by (simp add: map_of_dict_set)
qed

lemma set_puzzle_rush_other:
  "set_puzzle_rush m pd = Inr m' \<Longrightarrow> k \<noteq> ''puzzle_rush'' \<Longrightarrow> map_of m' k = map_of m k"
  by (auto simp: set_puzzle_rush_def map_of_dict_set split: sum.splits)

lemma fide_not_rating: "''fide'' \<notin> fst ` set rating_lists"
  by (simp add: rating_lists_def)

lemma set_fide_obj:
  "set_fide m (JObj d) =
     Inr (dict_set ''fide''
            (case map_of d ''fide'' of
               None \<Rightarrow> EMPTY
             | Some v \<Rightarrow> if py_eq_zero v then EMPTY else v) m)"
  by (simp add: set_fide_def get_or_empty_obj Let_def dict_set_twice EMPTY_def split: option.splits)

lemma enrich_stats_fide:
  assumes "enrich_stats m pd = Inr m'" and "set_fide m pd = Inr m1"
  shows "map_of m' ''fide'' = map_of m1 ''fide''"
proof -
  from assms obtain m2 where
    p: "set_puzzle_rush m1 pd = Inr m2" and r: "set_ratings rating_lists pd m2 = Inr m'"
    by (auto simp: enrich_stats_def split: sum.splits)
  have "map_of m' ''fide'' = map_of m2 ''fide''"
    using r fide_not_rating by (rule set_ratings_other)
  also have "\<dots> = map_of m1 ''fide''"
    using p by (rule set_puzzle_rush_other) simp
  finally show ?thesis .
qed

lemma enrich_stats_cong:
  assumes "\<forall>k. k \<noteq> ''fide'' \<longrightarrow> map_of d k = map_of d' k"
    and "set_fide m (JObj d) = set_fide m (JObj d')"
  shows "enrich_stats m (JObj d) = enrich_stats m (JObj d')"
proof -
  have pr: "path3 (JObj d) ''puzzle_rush'' ''best'' ''score'' =
        path3 (JObj d') ''puzzle_rush'' ''best'' ''score''"
    using assms(1) by (intro path3_obj_cong) simp
  have "\<forall>t \<in> fst ` set rating_lists. map_of d t = map_of d' t"
    using assms(1) fide_not_rating by metis
  then have "\<And>m. set_ratings rating_lists (JObj d) m = set_ratings rating_lists (JObj d') m"
    by (rule set_ratings_cong)
  then have sr: "set_ratings rating_lists (JObj d) = set_ratings rating_lists (JObj d')"
    by (intro ext)
  show ?thesis
    unfolding enrich_stats_def set_puzzle_rush_def pr assms(2) sr by (rule refl)
qed

text \<open>
  C3. A statistics response whose \<^verbatim>\<open>fide\<close> equals zero (\<^verbatim>\<open>== 0\<close>) and one without
  the key \<^verbatim>\<open>fide\<close> both store the empty sentinel under \<^verbatim>\<open>fide\<close>; when they agree on
  every other key, the whole result of the enrichment is the same.
\<close>

theorem fide_zero_same_as_absent:
  assumes zero: "map_of d0 ''fide'' = Some v0" "py_eq_zero v0"
    and absent: "map_of d1 ''fide'' = None"
  shows "set_fide m (JObj d0) = Inr (dict_set ''fide'' EMPTY m) \<and>
         set_fide m (JObj d1) = Inr (dict_set ''fide'' EMPTY m) \<and>
         (\<forall>m'. enrich_stats m (JObj d0) = Inr m' \<longrightarrow> map_of m' ''fide'' = Some EMPTY) \<and>
         (\<forall>m'. enrich_stats m (JObj d1) = Inr m' \<longrightarrow> map_of m' ''fide'' = Some EMPTY) \<and>
         ((\<forall>k. k \<noteq> ''fide'' \<longrightarrow> map_of d0 k = map_of d1 k) \<longrightarrow>
            enrich_stats m (JObj d0) = enrich_stats m (JObj d1))"
proof -
  have f0: "set_fide m (JObj d0) = Inr (dict_set ''fide'' EMPTY m)"
    using zero by (simp add: set_fide_obj)
  have f1: "set_fide m (JObj d1) = Inr (dict_set ''fide'' EMPTY m)"
    using absent by (simp add: set_fide_obj)
  have e0: "map_of m' ''fide'' = Some EMPTY" if "enrich_stats m (JObj d0) = Inr m'" for m'
    using enrich_stats_fide [OF that f0] by (simp add: map_of_dict_set)
  have e1: "map_of m' ''fide'' = Some EMPTY" if "enrich_stats m (JObj d1) = Inr m'" for m'
    using enrich_stats_fide [OF that f1] by (simp add: map_of_dict_set)
  have c: "enrich_stats m (JObj d0) = enrich_stats m (JObj d1)"
    if "\<forall>k. k \<noteq> ''fide'' \<longrightarrow> map_of d0 k = map_of d1 k"
    using enrich_stats_cong [OF that] f0 f1 by simp
  from f0 f1 e0 e1 c show ?thesis by blast
qed

theorem fide_zero_same_as_absent_witness:
  "map_of [(''fide'', JInt 0), (''lessons'', JObj [(''highest'', JObj [(''rating'', JInt 900)])])]
      ''fide'' = Some (JInt 0) \<and>
   map_of [(''lessons'', JObj [(''highest'', JObj [(''rating'', JInt 900)])])] ''fide'' = None \<and>
   set_fide [(''username'', JStr ''alice'')]
      (JObj [(''fide'', JInt 0), (''lessons'', JObj [(''highest'', JObj [(''rating'', JInt 900)])])]) =
     Inr [(''username'', JStr ''alice''), (''fide'', JStr [])] \<and>
   set_fide [(''username'', JStr ''alice'')]
      (JObj [(''lessons'', JObj [(''highest'', JObj [(''rating'', JInt 900)])])]) =
     Inr [(''username'', JStr ''alice''), (''fide'', JStr [])] \<and>
   enrich_stats [(''username'', JStr ''alice'')]
      (JObj [(''fide'', JInt 0), (''lessons'', JObj [(''highest'', JObj [(''rating'', JInt 900)])])]) =
     enrich_stats [(''username'', JStr ''alice'')]
      (JObj [(''lessons'', JObj [(''highest'', JObj [(''rating'', JInt 900)])])])"
proof -
  let ?l = "(''lessons'', JObj [(''highest'', JObj [(''rating'', JInt 900)])])"
  have z: "map_of [(''fide'', JInt 0), ?l] ''fide'' = Some (JInt 0)"
    by simp
  have a: "map_of [?l] ''fide'' = None"
    by simp
  have o: "\<forall>k. k \<noteq> ''fide'' \<longrightarrow> map_of [(''fide'', JInt 0), ?l] k = map_of [?l] k"
    by simp
  have e: "py_eq_zero (JInt 0)"
    by simp
  from fide_zero_same_as_absent [OF z e a, of "[(''username'', JStr ''alice'')]"] o z a
  show ?thesis by (simp add: dict_set_def EMPTY_def)
qed

lemma py_getitem_cases:
  "py_getitem v k = Inl TypeError \<or> py_getitem v k = Inl KeyError \<or> (\<exists>w. py_getitem v k = Inr w)"
  by (cases v) (auto simp: dict_get_def split: option.splits)

lemma path3_cases:
  "path3 pd k1 k2 k3 = Inl TypeError \<or> path3 pd k1 k2 k3 = Inl KeyError \<or>
   (\<exists>w. path3 pd k1 k2 k3 = Inr w)"
  using py_getitem_cases [of pd k1]
proof (elim disjE exE)
  fix a assume a: "py_getitem pd k1 = Inr a"
  from py_getitem_cases [of a k2] show ?thesis
  proof (elim disjE exE)
    fix b assume b: "py_getitem a k2 = Inr b"
    from py_getitem_cases [of b k3] a b show ?thesis by (auto simp: path3_def)
  qed (auto simp: path3_def a)
qed (auto simp: path3_def)

lemma segments_ok_path3:
  "segments_ok pd [k1, k2, k3] \<longleftrightarrow> path3 pd k1 k2 k3 \<noteq> Inl TypeError"
proof (cases pd)
  case (JObj d)
  show ?thesis
  proof (cases "map_of d k1")
    case None
    with JObj show ?thesis by (simp add: path3_def dict_get_def)
  next
    case (Some a)
    note a = this
    show ?thesis
    proof (cases a)
      case (JObj da)
      note da = this
      show ?thesis
      proof (cases "map_of da k2")
        case None
        with \<open>pd = JObj d\<close> a da show ?thesis by (simp add: path3_def dict_get_def)
      next
        case (Some b)
        with \<open>pd = JObj d\<close> a da show ?thesis
          by (cases b) (auto simp: path3_def dict_get_def split: option.splits)
      qed
    qed (use \<open>pd = JObj d\<close> a in \<open>simp_all add: path3_def dict_get_def\<close>)
  qed
qed (simp_all add: path3_def)

lemma segment_missing_path3:
  "segment_missing pd [k1, k2, k3] \<longleftrightarrow> path3 pd k1 k2 k3 = Inl KeyError"
proof (cases pd)
  case (JObj d)
  show ?thesis
  proof (cases "map_of d k1")
    case None
    with JObj show ?thesis by (simp add: path3_def dict_get_def)
  next
    case (Some a)
    note a = this
    show ?thesis
    proof (cases a)
      case (JObj da)
      note da = this
      show ?thesis
      proof (cases "map_of da k2")
        case None
        with \<open>pd = JObj d\<close> a da show ?thesis by (simp add: path3_def dict_get_def)
      next
        case (Some b)
        with \<open>pd = JObj d\<close> a da show ?thesis
          by (cases b) (auto simp: path3_def dict_get_def split: option.splits)
      qed
    qed (use \<open>pd = JObj d\<close> a in \<open>simp_all add: path3_def dict_get_def\<close>)
  qed
qed (simp_all add: path3_def)

lemma field_value_cases:
  "field_value pd (k1, k2, k3) =
     (if segment_missing pd [k1, k2, k3] then Inr EMPTY
      else if segments_ok pd [k1, k2, k3] then path3 pd k1 k2 k3
      else Inl TypeError)"
  using path3_cases [of pd k1 k2 k3]
  by (auto simp: segment_missing_path3 segments_ok_path3)



text \<open>The loop over the rating types, field by field.\<close>

lemma set_ratings_Inr_iff:
  "(\<exists>m'. set_ratings rl pd m = Inr m') \<longleftrightarrow>
   (\<forall>(t, sel) \<in> set rl. \<exists>v. field_value pd (t, sel, ''rating'') = Inr v)"
proof (induction rl arbitrary: m)
  case Nil
  show ?case by simp
next
  case (Cons e rl)
  obtain t sel where e: "e = (t, sel)" by (cases e)
  show ?case
  proof (cases "except_KeyError (path3 pd t sel ''rating'')")
    case (Inl x)
    with e show ?thesis by auto
  next
    case (Inr v)
    with e Cons.IH [of "dict_set t v m"] show ?thesis by simp
  qed
qed


lemma set_ratings_lookup:
  "set_ratings rl pd m = Inr m' \<Longrightarrow> distinct (map fst rl) \<Longrightarrow> (t, sel) \<in> set rl \<Longrightarrow>
   \<exists>v. field_value pd (t, sel, ''rating'') = Inr v \<and> map_of m' t = Some v"
proof (induction rl arbitrary: m)
  case Nil
  then show ?case by simp
next
  case (Cons e rl)
  obtain t0 s0 where e: "e = (t0, s0)" by (cases e)
  from Cons.prems(1) e obtain v where
    v: "field_value pd (t0, s0, ''rating'') = Inr v"
    and r: "set_ratings rl pd (dict_set t0 v m) = Inr m'"
    by (auto split: sum.splits)
  from Cons.prems(2) e have d: "distinct (map fst rl)" and n: "t0 \<notin> fst ` set rl" by auto
  show ?case
  proof (cases "(t, sel) = (t0, s0)")
    case True
    from set_ratings_other [OF r n] have "map_of m' t0 = Some v"
      by (simp add: map_of_dict_set)
    with True v show ?thesis by simp
  next
    case False
    with Cons.prems(3) e have "(t, sel) \<in> set rl" by auto
    from Cons.IH [OF r d this] show ?thesis .
  qed
qed

lemma set_ratings_field_cong:
  "\<forall>(t, sel) \<in> set rl. field_value pd (t, sel, ''rating'') = field_value pd' (t, sel, ''rating'')
   \<Longrightarrow> set_ratings rl pd m = set_ratings rl pd' m"
proof (induction rl arbitrary: m)
  case Nil
  show ?case by simp
next
  case (Cons e rl)
  obtain t s where e: "e = (t, s)" by (cases e)
  from Cons.prems e have
    p: "except_KeyError (path3 pd t s ''rating'') = except_KeyError (path3 pd' t s ''rating'')"
    by simp
  from Cons.prems have
    "\<forall>(t, sel) \<in> set rl. field_value pd (t, sel, ''rating'') = field_value pd' (t, sel, ''rating'')"
    by simp
  then have "\<And>m. set_ratings rl pd m = set_ratings rl pd' m"
    by (rule Cons.IH)
  with p e show ?case by (simp split: sum.splits)
qed

lemma distinct_rating_lists: "distinct (map fst rating_lists)"
  by (simp add: rating_lists_def)

lemma distinct_nested_fields: "distinct (map fst nested_fields)"
  by (simp add: nested_fields_def rating_lists_def)

lemma nested_fields_set:
  "f \<in> set nested_fields \<longleftrightarrow>
   f = (''puzzle_rush'', ''best'', ''score'') \<or>
   (\<exists>t sel. (t, sel) \<in> set rating_lists \<and> f = (t, sel, ''rating''))"
  by (auto simp: nested_fields_def)

lemma puzzle_rush_not_rating: "''puzzle_rush'' \<notin> fst ` set rating_lists"
  by (simp add: rating_lists_def)

lemma fide_not_nested: "''fide'' \<notin> fst ` set nested_fields"
  by (simp add: nested_fields_def rating_lists_def)

lemma username_not_nested: "''username'' \<notin> fst ` set nested_fields"
  by (simp add: nested_fields_def rating_lists_def)

lemma fst_nested_fields: "fst ` set nested_fields = insert ''puzzle_rush'' (fst ` set rating_lists)"
  by (simp add: nested_fields_def image_image case_prod_unfold)

text \<open>The three steps of the statistics enrichment together.\<close>

lemma enrich_stats_Inr_iff:
  "(\<exists>m'. enrich_stats m pd = Inr m') \<longleftrightarrow>
   (\<exists>f. get_or_empty pd ''fide'' = Inr f) \<and>
   (\<forall>f \<in> set nested_fields. \<exists>v. field_value pd f = Inr v)"
proof (cases "get_or_empty pd ''fide''")
  case (Inl e)
  then show ?thesis by (simp add: enrich_stats_def set_fide_def)
next
  case (Inr f)
  then obtain m1 where m1: "set_fide m pd = Inr m1"
    by (simp add: set_fide_def Let_def)
  show ?thesis
  proof (cases "field_value pd (''puzzle_rush'', ''best'', ''score'')")
    case (Inl e)
    then have "\<not> (\<forall>f \<in> set nested_fields. \<exists>v. field_value pd f = Inr v)"
      by (auto simp: nested_fields_def)
    with Inl m1 show ?thesis by (simp add: enrich_stats_def set_puzzle_rush_def)
  next
    case (Inr p)
    have "(\<forall>f \<in> set nested_fields. \<exists>v. field_value pd f = Inr v) \<longleftrightarrow>
          (\<forall>(t, sel) \<in> set rating_lists. \<exists>v. field_value pd (t, sel, ''rating'') = Inr v)"
      using Inr by (auto simp: nested_fields_def)
    also have "\<dots> \<longleftrightarrow>
          (\<exists>m'. set_ratings rating_lists pd (dict_set ''puzzle_rush'' p m1) = Inr m')"
      by (rule set_ratings_Inr_iff [symmetric])
    finally show ?thesis
      using Inr m1 \<open>get_or_empty pd ''fide'' = Inr f\<close>
      by (simp add: enrich_stats_def set_puzzle_rush_def)
  qed
qed

lemma enrich_stats_lookup:
  assumes "enrich_stats m pd = Inr m'" and "(k1, k2, k3) \<in> set nested_fields"
  shows "\<exists>v. field_value pd (k1, k2, k3) = Inr v \<and> map_of m' k1 = Some v"
proof -
  from assms(1) obtain m1 p where
    m1: "set_fide m pd = Inr m1"
    and p: "field_value pd (''puzzle_rush'', ''best'', ''score'') = Inr p"
    and r: "set_ratings rating_lists pd (dict_set ''puzzle_rush'' p m1) = Inr m'"
    by (auto simp: enrich_stats_def set_puzzle_rush_def split: sum.splits)
  from assms(2) consider
    "(k1, k2, k3) = (''puzzle_rush'', ''best'', ''score'')"
    | "(k1, k2) \<in> set rating_lists" "k3 = ''rating''"
    by (auto simp: nested_fields_set)
  then show ?thesis
  proof cases
    case 1
    from set_ratings_other [OF r puzzle_rush_not_rating]
    have "map_of m' ''puzzle_rush'' = Some p" by (simp add: map_of_dict_set)
    with 1 p show ?thesis by simp
  next
    case 2
    from set_ratings_lookup [OF r distinct_rating_lists 2(1)] 2(2) show ?thesis by simp
  qed
qed

lemma enrich_stats_other:
  assumes "enrich_stats m pd = Inr m'" and "k \<noteq> ''fide''" and "k \<notin> fst ` set nested_fields"
  shows "map_of m' k = map_of m k"
proof -
  from assms(1) obtain m1 m2 where
    m1: "set_fide m pd = Inr m1"
    and m2: "set_puzzle_rush m1 pd = Inr m2"
    and r: "set_ratings rating_lists pd m2 = Inr m'"
    by (auto simp: enrich_stats_def split: sum.splits)
  from assms(3) have kp: "k \<noteq> ''puzzle_rush''" and kr: "k \<notin> fst ` set rating_lists"
    by (simp_all add: fst_nested_fields)
  have "map_of m' k = map_of m2 k" using r kr by (rule set_ratings_other)
  also have "\<dots> = map_of m1 k" using m2 kp by (rule set_puzzle_rush_other)
  also have "\<dots> = map_of m k"
    using m1 assms(2) by (auto simp: set_fide_def Let_def map_of_dict_set split: sum.splits if_splits)
  finally show ?thesis .
qed


lemma enrich_stats_field_cong:
  assumes "set_fide m pd = set_fide m pd'"
    and "\<forall>f \<in> set nested_fields. field_value pd f = field_value pd' f"
  shows "enrich_stats m pd = enrich_stats m pd'"
proof -
  from assms(2) have pr: "except_KeyError (path3 pd ''puzzle_rush'' ''best'' ''score'') =
      except_KeyError (path3 pd' ''puzzle_rush'' ''best'' ''score'')"
    by (simp add: nested_fields_def)
  have "field_value pd (t, sel, ''rating'') = field_value pd' (t, sel, ''rating'')"
    if "(t, sel) \<in> set rating_lists" for t sel
  proof -
    from that have "(t, sel, ''rating'') \<in> set nested_fields"
      by (simp add: nested_fields_set)
    with assms(2) show ?thesis by blast
  qed
  then have
    "\<forall>(t, sel) \<in> set rating_lists.
        field_value pd (t, sel, ''rating'') = field_value pd' (t, sel, ''rating'')"
    by blast
  then have "\<And>m. set_ratings rating_lists pd m = set_ratings rating_lists pd' m"
    by (rule set_ratings_field_cong)
  then have sr: "set_ratings rating_lists pd = set_ratings rating_lists pd'"
    by (intro ext)
  show ?thesis
    unfolding enrich_stats_def set_puzzle_rush_def pr assms(1) sr by (rule refl)
qed

lemma nested_fields_key:
  "(k, a) \<in> set nested_fields \<Longrightarrow> (k, b) \<in> set nested_fields \<Longrightarrow> a = b"
  using distinct_nested_fields by (rule eq_key_imp_eq_value)

lemma stats_request_str:
  "map_of m ''username'' = Some (JStr u) \<Longrightarrow> stats_request m = Inr (stats_url u)"
  by (simp add: stats_request_def dict_get_def stats_url_def)

lemma profile_request_str:
  "map_of m ''username'' = Some (JStr u) \<Longrightarrow> profile_request m = Inr (profile_url u)"
  by (simp add: profile_request_def dict_get_def profile_url_def)

text \<open>
  C4. When a key on the path of one of the eight nested fields is absent, the empty
  sentinel is stored for that field; every other field is read and stored as for a
  response that differs only under the first key of the path (for one, say, in which the
  path is complete).
\<close>

theorem missing_segment_only_that_field:
  assumes f: "(k1, k2, k3) \<in> set nested_fields"
    and missing: "segment_missing (JObj d) [k1, k2, k3]"
    and agree: "\<forall>k. k \<noteq> k1 \<longrightarrow> map_of d' k = map_of d k"
  shows "field_value (JObj d) (k1, k2, k3) = Inr EMPTY \<and>
         (\<forall>g \<in> set nested_fields. g \<noteq> (k1, k2, k3) \<longrightarrow>
            field_value (JObj d) g = field_value (JObj d') g) \<and>
         set_fide m (JObj d) = set_fide m (JObj d') \<and>
         (\<forall>m2. enrich_stats m (JObj d') = Inr m2 \<longrightarrow>
            (\<exists>m1. enrich_stats m (JObj d) = Inr m1 \<and> map_of m1 k1 = Some EMPTY \<and>
                  (\<forall>k. k \<noteq> k1 \<longrightarrow> map_of m1 k = map_of m2 k)))"
proof -
  have here: "field_value (JObj d) (k1, k2, k3) = Inr EMPTY"
    using missing by (simp only: field_value_cases if_True)
  have others: "field_value (JObj d) g = field_value (JObj d') g"
    if g: "g \<in> set nested_fields" and ne: "g \<noteq> (k1, k2, k3)" for g
  proof -
    obtain j1 j2 j3 where gj: "g = (j1, j2, j3)" by (cases g)
    have "j1 \<noteq> k1"
    proof
      assume "j1 = k1"
      with g gj f have "(j2, j3) = (k2, k3)" by (auto dest: nested_fields_key)
      with \<open>j1 = k1\<close> gj ne show False by simp
    qed
    with agree have "map_of d j1 = map_of d' j1" by simp
    then have "path3 (JObj d) j1 j2 j3 = path3 (JObj d') j1 j2 j3"
      by (rule path3_obj_cong)
    with gj show ?thesis by simp
  qed
  from f fide_not_nested have k1_fide: "k1 \<noteq> ''fide''" by force
  with agree have fd: "map_of d ''fide'' = map_of d' ''fide''" by simp
  then have fide: "set_fide m (JObj d) = set_fide m (JObj d')"
    by (simp add: set_fide_obj)
  have run: "\<exists>m1. enrich_stats m (JObj d) = Inr m1 \<and> map_of m1 k1 = Some EMPTY \<and>
                  (\<forall>k. k \<noteq> k1 \<longrightarrow> map_of m1 k = map_of m2 k)"
    if full: "enrich_stats m (JObj d') = Inr m2" for m2
  proof -
    from full have all': "\<forall>g \<in> set nested_fields. \<exists>v. field_value (JObj d') g = Inr v"
      using enrich_stats_Inr_iff [of m "JObj d'"] by blast
    have "\<exists>v. field_value (JObj d) g = Inr v" if "g \<in> set nested_fields" for g
    proof (cases "g = (k1, k2, k3)")
      case True
      with here show ?thesis by simp
    next
      case False
      with others [OF that] all' that show ?thesis by simp
    qed
    moreover have "\<exists>v. get_or_empty (JObj d) ''fide'' = Inr v"
      by (simp add: get_or_empty_obj)
    ultimately obtain m1 where m1: "enrich_stats m (JObj d) = Inr m1"
      using enrich_stats_Inr_iff [of m "JObj d"] by blast
    from enrich_stats_lookup [OF m1 f] here have at: "map_of m1 k1 = Some EMPTY"
      by simp
    have same: "map_of m1 k = map_of m2 k" if "k \<noteq> k1" for k
    proof -
      consider "k = ''fide''" | j2 j3 where "(k, j2, j3) \<in> set nested_fields"
        | "k \<noteq> ''fide''" "k \<notin> fst ` set nested_fields"
        by force
      then show ?thesis
      proof cases
        case 1
        obtain mf where mf: "set_fide m (JObj d) = Inr mf" by (simp add: set_fide_obj)
        from enrich_stats_fide [OF m1 mf] enrich_stats_fide [OF full mf [unfolded fide]] 1
        show ?thesis by simp
      next
        case 2
        from 2 that have "(k, j2, j3) \<noteq> (k1, k2, k3)" by simp
        from others [OF 2 this] enrich_stats_lookup [OF m1 2] enrich_stats_lookup [OF full 2]
        show ?thesis by auto
      next
        case 3
        from enrich_stats_other [OF m1 3] enrich_stats_other [OF full 3]
        show ?thesis by simp
      qed
    qed
    from m1 at same show ?thesis by blast
  qed
  from here others fide run show ?thesis by blast
qed

theorem missing_segment_only_that_field_witness:
  "(''puzzle_rush'', ''best'', ''score'') \<in> set nested_fields \<and>
   segment_missing (JObj [(''puzzle_rush'', JObj []), (''fide'', JInt 2100)])
     [''puzzle_rush'', ''best'', ''score''] \<and>
   enrich_stats [(''username'', JStr ''alice'')]
     (JObj [(''puzzle_rush'', JObj [(''best'', JObj [(''score'', JInt 42)])]), (''fide'', JInt 2100)])
     = Inr (map (\<lambda>k. (k, if k = ''username'' then JStr ''alice'' else if k = ''fide'' then JInt 2100
                         else if k = ''puzzle_rush'' then JInt 42 else JStr []))
              [''username'', ''fide'', ''puzzle_rush'', ''chess_daily'', ''chess_rapid'',
               ''chess_blitz'', ''chess_bullet'', ''chess960_daily'', ''tactics'', ''lessons'']) \<and>
   (\<exists>m1. enrich_stats [(''username'', JStr ''alice'')]
            (JObj [(''puzzle_rush'', JObj []), (''fide'', JInt 2100)]) = Inr m1 \<and>
         map_of m1 ''puzzle_rush'' = Some EMPTY \<and>
         map_of m1 ''fide'' = Some (JInt 2100) \<and>
         map_of m1 ''tactics'' = Some EMPTY)"
proof -
  let ?d = "[(''puzzle_rush'', JObj []), (''fide'', JInt 2100)]"
  let ?d' = "[(''puzzle_rush'', JObj [(''best'', JObj [(''score'', JInt 42)])]), (''fide'', JInt 2100)]"
  let ?m = "[(''username'', JStr ''alice'')]"
  have f: "(''puzzle_rush'', ''best'', ''score'') \<in> set nested_fields"
    by (simp add: nested_fields_def)
  have mi: "segment_missing (JObj ?d) [''puzzle_rush'', ''best'', ''score'']"
    by simp
  have ag: "\<forall>k. k \<noteq> ''puzzle_rush'' \<longrightarrow> map_of ?d' k = map_of ?d k"
    by simp
  have full: "enrich_stats ?m (JObj ?d')
     = Inr (map (\<lambda>k. (k, if k = ''username'' then JStr ''alice'' else if k = ''fide'' then JInt 2100
                         else if k = ''puzzle_rush'' then JInt 42 else JStr []))
              [''username'', ''fide'', ''puzzle_rush'', ''chess_daily'', ''chess_rapid'',
               ''chess_blitz'', ''chess_bullet'', ''chess960_daily'', ''tactics'', ''lessons''])"
    by (simp add: enrich_stats_def set_fide_def get_or_empty_def dict_get_def dict_set_def
        set_puzzle_rush_def path3_def rating_lists_def EMPTY_def)
  from missing_segment_only_that_field [OF f mi ag, of ?m] full f mi
  show ?thesis by (auto simp: EMPTY_def)
qed

lemma path3_sub_cong:
  assumes "map_of d1 t = Some (JObj a1)" and "map_of d2 t = Some (JObj a2)"
    and "map_of a1 sel = map_of a2 sel"
  shows "path3 (JObj d1) t sel k3 = path3 (JObj d2) t sel k3"
  using assms by (simp add: path3_def dict_get_def)

lemma enrich_stats_selector:
  assumes sel: "(t, sel) \<in> set rating_lists"
    and t1: "map_of d1 t = Some (JObj a1)" and t2: "map_of d2 t = Some (JObj a2)"
    and same: "map_of a1 sel = map_of a2 sel"
    and rest: "\<forall>k. k \<noteq> t \<longrightarrow> map_of d1 k = map_of d2 k"
  shows "field_value (JObj d1) (t, sel, ''rating'') = field_value (JObj d2) (t, sel, ''rating'')"
    and "enrich_stats m (JObj d1) = enrich_stats m (JObj d2)"
proof -
  show here: "field_value (JObj d1) (t, sel, ''rating'') = field_value (JObj d2) (t, sel, ''rating'')"
    using path3_sub_cong [OF t1 t2 same] by simp
  from sel have nf: "(t, sel, ''rating'') \<in> set nested_fields"
    by (simp add: nested_fields_set)
  have fields: "field_value (JObj d1) g = field_value (JObj d2) g"
    if g: "g \<in> set nested_fields" for g
  proof (cases "g = (t, sel, ''rating'')")
    case True
    with here show ?thesis by simp
  next
    case False
    obtain j1 j2 j3 where gj: "g = (j1, j2, j3)" by (cases g)
    have "j1 \<noteq> t"
    proof
      assume "j1 = t"
      with g gj nf have "(j2, j3) = (sel, ''rating'')" by (auto dest: nested_fields_key)
      with \<open>j1 = t\<close> gj False show False by simp
    qed
    with rest have "map_of d1 j1 = map_of d2 j1" by simp
    then have "path3 (JObj d1) j1 j2 j3 = path3 (JObj d2) j1 j2 j3"
      by (rule path3_obj_cong)
    with gj show ?thesis by simp
  qed
  from nf fide_not_nested have "t \<noteq> ''fide''" by force
  with rest have "map_of d1 ''fide'' = map_of d2 ''fide''" by simp
  then have "set_fide m (JObj d1) = set_fide m (JObj d2)"
    by (simp add: set_fide_obj)
  then show "enrich_stats m (JObj d1) = enrich_stats m (JObj d2)"
    using fields by (intro enrich_stats_field_cong) blast+
qed

text \<open>
  C5. The rating types read under \<^verbatim>\<open>last\<close> are the five game types, those read under
  \<^verbatim>\<open>highest\<close> are \<^verbatim>\<open>tactics\<close> and \<^verbatim>\<open>lessons\<close>. Two statistics responses that differ only
  under the \<^verbatim>\<open>highest\<close> key of a type read under \<^verbatim>\<open>last\<close> give the same value for that
  field, and the same result of the whole enrichment; likewise with \<^verbatim>\<open>last\<close> and
  \<^verbatim>\<open>highest\<close> exchanged.
\<close>

theorem other_selector_is_ignored:
  assumes t1: "map_of d1 t = Some (JObj a1)" and t2: "map_of d2 t = Some (JObj a2)"
    and rest: "\<forall>k. k \<noteq> t \<longrightarrow> map_of d1 k = map_of d2 k"
  shows "{t. (t, ''last'') \<in> set rating_lists} =
           {''chess_daily'', ''chess_rapid'', ''chess_blitz'', ''chess_bullet'', ''chess960_daily''} \<and>
         {t. (t, ''highest'') \<in> set rating_lists} = {''tactics'', ''lessons''} \<and>
         ((t, ''last'') \<in> set rating_lists \<and> (\<forall>k. k \<noteq> ''highest'' \<longrightarrow> map_of a1 k = map_of a2 k) \<longrightarrow>
            field_value (JObj d1) (t, ''last'', ''rating'') =
              field_value (JObj d2) (t, ''last'', ''rating'') \<and>
            enrich_stats m (JObj d1) = enrich_stats m (JObj d2)) \<and>
         ((t, ''highest'') \<in> set rating_lists \<and> (\<forall>k. k \<noteq> ''last'' \<longrightarrow> map_of a1 k = map_of a2 k) \<longrightarrow>
            field_value (JObj d1) (t, ''highest'', ''rating'') =
              field_value (JObj d2) (t, ''highest'', ''rating'') \<and>
            enrich_stats m (JObj d1) = enrich_stats m (JObj d2))"
proof -
  have l: "{t. (t, ''last'') \<in> set rating_lists} =
           {''chess_daily'', ''chess_rapid'', ''chess_blitz'', ''chess_bullet'', ''chess960_daily''}"
    by (auto simp: rating_lists_def)
  have h: "{t. (t, ''highest'') \<in> set rating_lists} = {''tactics'', ''lessons''}"
    by (auto simp: rating_lists_def)
  have a: "field_value (JObj d1) (t, ''last'', ''rating'') =
              field_value (JObj d2) (t, ''last'', ''rating'') \<and>
            enrich_stats m (JObj d1) = enrich_stats m (JObj d2)"
    if "(t, ''last'') \<in> set rating_lists" and "\<forall>k. k \<noteq> ''highest'' \<longrightarrow> map_of a1 k = map_of a2 k"
  proof -
    from that(2) have "map_of a1 ''last'' = map_of a2 ''last''" by simp
    from enrich_stats_selector [OF that(1) t1 t2 this rest] show ?thesis by simp
  qed
  have b: "field_value (JObj d1) (t, ''highest'', ''rating'') =
              field_value (JObj d2) (t, ''highest'', ''rating'') \<and>
            enrich_stats m (JObj d1) = enrich_stats m (JObj d2)"
    if "(t, ''highest'') \<in> set rating_lists" and "\<forall>k. k \<noteq> ''last'' \<longrightarrow> map_of a1 k = map_of a2 k"
  proof -
    from that(2) have "map_of a1 ''highest'' = map_of a2 ''highest''" by simp
    from enrich_stats_selector [OF that(1) t1 t2 this rest] show ?thesis by simp
  qed
  from l h a b show ?thesis by blast
qed

theorem other_selector_is_ignored_witness:
  "enrich_stats [(''username'', JStr ''alice'')]
     (JObj [(''chess_blitz'', JObj [(''last'', JObj [(''rating'', JInt 1200)]),
                                   (''highest'', JObj [(''rating'', JInt 1500)])])]) =
   enrich_stats [(''username'', JStr ''alice'')]
     (JObj [(''chess_blitz'', JObj [(''last'', JObj [(''rating'', JInt 1200)]),
                                   (''highest'', JObj [(''rating'', JInt 1777)])])]) \<and>
   field_value (JObj [(''chess_blitz'', JObj [(''last'', JObj [(''rating'', JInt 1200)]),
                                   (''highest'', JObj [(''rating'', JInt 1500)])])])
      (''chess_blitz'', ''last'', ''rating'') = Inr (JInt 1200) \<and>
   enrich_stats [(''username'', JStr ''alice'')]
     (JObj [(''tactics'', JObj [(''highest'', JObj [(''rating'', JInt 1500)]),
                               (''last'', JObj [(''rating'', JInt 1200)])])]) =
   enrich_stats [(''username'', JStr ''alice'')]
     (JObj [(''tactics'', JObj [(''highest'', JObj [(''rating'', JInt 1500)]),
                               (''last'', JObj [(''rating'', JInt 900)])])]) \<and>
   field_value (JObj [(''tactics'', JObj [(''highest'', JObj [(''rating'', JInt 1500)]),
                               (''last'', JObj [(''rating'', JInt 1200)])])])
      (''tactics'', ''highest'', ''rating'') = Inr (JInt 1500)"
proof -
  let ?m = "[(''username'', JStr ''alice'')]"
  let ?b1 = "[(''last'', JObj [(''rating'', JInt 1200)]), (''highest'', JObj [(''rating'', JInt 1500)])]"
  let ?b2 = "[(''last'', JObj [(''rating'', JInt 1200)]), (''highest'', JObj [(''rating'', JInt 1777)])]"
  let ?t1 = "[(''highest'', JObj [(''rating'', JInt 1500)]), (''last'', JObj [(''rating'', JInt 1200)])]"
  let ?t2 = "[(''highest'', JObj [(''rating'', JInt 1500)]), (''last'', JObj [(''rating'', JInt 900)])]"
  have b: "(''chess_blitz'', ''last'') \<in> set rating_lists"
    and t: "(''tactics'', ''highest'') \<in> set rating_lists"
    by (simp_all add: rating_lists_def)
  have bsub: "\<forall>k. k \<noteq> ''highest'' \<longrightarrow> map_of ?b1 k = map_of ?b2 k"
    and tsub: "\<forall>k. k \<noteq> ''last'' \<longrightarrow> map_of ?t1 k = map_of ?t2 k"
    by simp_all
  have blitz: "enrich_stats ?m (JObj [(''chess_blitz'', JObj ?b1)]) =
      enrich_stats ?m (JObj [(''chess_blitz'', JObj ?b2)])"
    using other_selector_is_ignored
      [of "[(''chess_blitz'', JObj ?b1)]" "''chess_blitz''" ?b1
          "[(''chess_blitz'', JObj ?b2)]" ?b2 ?m] b bsub
    by simp
  have tactics: "enrich_stats ?m (JObj [(''tactics'', JObj ?t1)]) =
      enrich_stats ?m (JObj [(''tactics'', JObj ?t2)])"
    using other_selector_is_ignored
      [of "[(''tactics'', JObj ?t1)]" "''tactics''" ?t1
          "[(''tactics'', JObj ?t2)]" ?t2 ?m] t tsub
    by simp
  have v1: "field_value (JObj [(''chess_blitz'', JObj ?b1)]) (''chess_blitz'', ''last'', ''rating'')
      = Inr (JInt 1200)"
    by (simp add: path3_def dict_get_def)
  have v2: "field_value (JObj [(''tactics'', JObj ?t1)]) (''tactics'', ''highest'', ''rating'')
      = Inr (JInt 1500)"
    by (simp add: path3_def dict_get_def)
  from blitz tactics v1 v2 show ?thesis by simp
qed



section \<open>The loop over the members\<close>

lemma for_members_Inr_iff:
  "for_members body call ms = Inr ms' \<longleftrightarrow>
   length ms' = length ms \<and> (\<forall>i < length ms. body (call + i) (ms ! i) = Inr (ms' ! i))"
proof (induction ms arbitrary: call ms')
  case Nil
  show ?case by auto
next
  case (Cons m ms)
  show ?case
  proof (cases ms')
    case Nil
    then show ?thesis by (auto split: sum.splits)
  next
    case (Cons m' rest')
    have "for_members body call (m # ms) = Inr (m' # rest') \<longleftrightarrow>
          body call m = Inr m' \<and> for_members body (Suc call) ms = Inr rest'"
      by (auto split: sum.splits)
    also have "\<dots> \<longleftrightarrow> body call m = Inr m' \<and> length rest' = length ms \<and>
          (\<forall>i < length ms. body (Suc call + i) (ms ! i) = Inr (rest' ! i))"
      by (simp only: Cons.IH)
    also have "\<dots> \<longleftrightarrow> length (m' # rest') = length (m # ms) \<and>
          (\<forall>i < length (m # ms). body (call + i) ((m # ms) ! i) = Inr ((m' # rest') ! i))"
      by (auto simp: All_less_Suc2)
    finally show ?thesis using Cons by simp
  qed
qed

lemma for_members_Inl_iff:
  "(\<exists>a. for_members body call ms = Inl a) \<longleftrightarrow>
   (\<exists>i < length ms. \<exists>a. body (call + i) (ms ! i) = Inl a)"
proof (induction ms arbitrary: call)
  case Nil
  show ?case by simp
next
  case (Cons m ms)
  show ?case
  proof (cases "body call m")
    case (Inl a)
    then have "\<exists>i < length (m # ms). \<exists>a. body (call + i) ((m # ms) ! i) = Inl a"
      by (intro exI [of _ 0]) simp
    with Inl show ?thesis by simp
  next
    case (Inr m')
    have "(\<exists>a. for_members body call (m # ms) = Inl a) \<longleftrightarrow>
          (\<exists>a. for_members body (Suc call) ms = Inl a)"
      using Inr by (auto split: sum.splits)
    also have "\<dots> \<longleftrightarrow> (\<exists>i < length ms. \<exists>a. body (Suc call + i) (ms ! i) = Inl a)"
      by (rule Cons.IH)
    also have "\<dots> \<longleftrightarrow> (\<exists>i < length (m # ms). \<exists>a. body (call + i) ((m # ms) ! i) = Inl a)"
      using Inr by (auto simp: Ex_less_Suc2)
    finally show ?thesis .
  qed
qed

text \<open>
  The loop stops at the first member whose turn aborts, with that abort; the members
  after it are not looked at.
\<close>

lemma for_members_first_abort:
  assumes "i < length ms" and "body (call + i) (ms ! i) = Inl a"
    and "\<forall>j < i. \<exists>m'. body (call + j) (ms ! j) = Inr m'"
  shows "for_members body call ms = Inl a"
  using assms
proof (induction ms arbitrary: call i)
  case Nil
  then show ?case by simp
next
  case (Cons m ms)
  show ?case
  proof (cases i)
    case 0
    with Cons.prems show ?thesis by simp
  next
    case (Suc n)
    from Cons.prems(3) Suc obtain m' where m': "body call m = Inr m'" by force
    from Cons.prems Suc have n: "n < length ms" and b: "body (Suc call + n) (ms ! n) = Inl a"
      by simp_all
    have "\<forall>j < n. \<exists>m'. body (Suc call + j) (ms ! j) = Inr m'"
    proof (intro allI impI)
      fix j assume "j < n"
      with Suc have "Suc j < i" by simp
      with Cons.prems(3) have "\<exists>m'. body (call + Suc j) ((m # ms) ! Suc j) = Inr m'" by blast
      then show "\<exists>m'. body (Suc call + j) (ms ! j) = Inr m'" by simp
    qed
    from Cons.IH [OF n b this] m' show ?thesis by simp
  qed
qed

section \<open>The profile fields\<close>

lemma enrich_profile_obj:
  "enrich_profile m (JObj d) =
     Inr (dict_set ''status'' (case map_of d ''status'' of None \<Rightarrow> EMPTY | Some v \<Rightarrow> v)
           (dict_set ''location'' (case map_of d ''location'' of None \<Rightarrow> EMPTY | Some v \<Rightarrow> v)
             (dict_set ''name'' (case map_of d ''name'' of None \<Rightarrow> EMPTY | Some v \<Rightarrow> v) m)))"
  by (simp add: enrich_profile_def get_or_empty_obj)

lemma enrich_profile_other:
  assumes "enrich_profile m pd = Inr m'" and "k \<notin> {''name'', ''location'', ''status''}"
  shows "map_of m' k = map_of m k"
  using assms by (auto simp: enrich_profile_def map_of_dict_set split: sum.splits)

text \<open>
  C8. For a profile response that is an object, each of \<^verbatim>\<open>name\<close>, \<^verbatim>\<open>location\<close> and
  \<^verbatim>\<open>status\<close> is set to the value under that key when the key is there and to the empty
  sentinel when it is not. No choice of keys makes the step abort: the turn of the member
  returns the updated record, and a profile stage in which every fetch returns an object
  returns all its members, so that the run goes on to the statistics.
\<close>

theorem profile_fields_default_to_empty:
  "(\<exists>m'. enrich_profile m (JObj d) = Inr m' \<and>
      (\<forall>k \<in> {''name'', ''location'', ''status''}.
         map_of m' k = Some (case map_of d k of None \<Rightarrow> EMPTY | Some v \<Rightarrow> v)) \<and>
      (\<forall>k. k \<notin> {''name'', ''location'', ''status''} \<longrightarrow> map_of m' k = map_of m k)) \<and>
   (\<forall>net call u.
      map_of m ''username'' = Some (JStr u) \<and> net call (profile_url u) = Body (JObj d) \<longrightarrow>
      profile_member net call m = uncaught (enrich_profile m (JObj d)) \<and>
      (\<exists>m'. profile_member net call m = Inr m')) \<and>
   (\<forall>net call ms.
      (\<forall>i < length ms. \<exists>u di. map_of (ms ! i) ''username'' = Some (JStr u) \<and>
                               net (call + i) (profile_url u) = Body (JObj di)) \<longrightarrow>
      (\<exists>ms'. profile_stage net call ms = Inr ms' \<and> length ms' = length ms))"
proof -
  let ?m' = "dict_set ''status'' (case map_of d ''status'' of None \<Rightarrow> EMPTY | Some v \<Rightarrow> v)
           (dict_set ''location'' (case map_of d ''location'' of None \<Rightarrow> EMPTY | Some v \<Rightarrow> v)
             (dict_set ''name'' (case map_of d ''name'' of None \<Rightarrow> EMPTY | Some v \<Rightarrow> v) m))"
  have e: "enrich_profile m (JObj d) = Inr ?m'"
    by (rule enrich_profile_obj)
  have set: "\<forall>k \<in> {''name'', ''location'', ''status''}.
         map_of ?m' k = Some (case map_of d k of None \<Rightarrow> EMPTY | Some v \<Rightarrow> v)"
    by (simp add: map_of_dict_set)
  have kept: "\<forall>k. k \<notin> {''name'', ''location'', ''status''} \<longrightarrow> map_of ?m' k = map_of m k"
    by (simp add: map_of_dict_set)
  have one: "profile_member net call m' = uncaught (enrich_profile m' (JObj d')) \<and>
      (\<exists>m''. profile_member net call m' = Inr m'')"
    if "map_of m' ''username'' = Some (JStr u)" and "net call (profile_url u) = Body (JObj d')"
    for net call u m' d'
    using that profile_request_str [OF that(1)]
    by (simp add: profile_member_def enrich_profile_obj uncaught_def)
  have stage: "\<exists>ms'. profile_stage net call ms = Inr ms' \<and> length ms' = length ms"
    if all: "\<forall>i < length ms. \<exists>u di. map_of (ms ! i) ''username'' = Some (JStr u) \<and>
                               net (call + i) (profile_url u) = Body (JObj di)"
    for net call ms
  proof (cases "profile_stage net call ms")
    case (Inr ms')
    then have "for_members (profile_member net) call ms = Inr ms'"
      by (simp only: profile_stage_def)
    then have "length ms' = length ms"
      by (simp only: for_members_Inr_iff)
    with Inr show ?thesis by simp
  next
    case (Inl a)
    then obtain i a' where i: "i < length ms"
      and ab: "profile_member net (call + i) (ms ! i) = Inl a'"
      using for_members_Inl_iff [of "profile_member net" call ms]
      by (auto simp: profile_stage_def)
    from all i obtain u di where u: "map_of (ms ! i) ''username'' = Some (JStr u)"
      and b: "net (call + i) (profile_url u) = Body (JObj di)"
      by blast
    from one [of "ms ! i" u net "call + i" di] u b ab show ?thesis by simp
  qed
  have first: "\<exists>m'. enrich_profile m (JObj d) = Inr m' \<and>
      (\<forall>k \<in> {''name'', ''location'', ''status''}.
         map_of m' k = Some (case map_of d k of None \<Rightarrow> EMPTY | Some v \<Rightarrow> v)) \<and>
      (\<forall>k. k \<notin> {''name'', ''location'', ''status''} \<longrightarrow> map_of m' k = map_of m k)"
    using e set kept by (intro exI [of _ ?m'] conjI)
  have second: "\<forall>net call u.
      map_of m ''username'' = Some (JStr u) \<and> net call (profile_url u) = Body (JObj d) \<longrightarrow>
      profile_member net call m = uncaught (enrich_profile m (JObj d)) \<and>
      (\<exists>m'. profile_member net call m = Inr m')"
    using one [of m _ _ _ d] by (intro allI impI) (elim conjE)
  have third: "\<forall>net call ms.
      (\<forall>i < length ms. \<exists>u di. map_of (ms ! i) ''username'' = Some (JStr u) \<and>
                               net (call + i) (profile_url u) = Body (JObj di)) \<longrightarrow>
      (\<exists>ms'. profile_stage net call ms = Inr ms' \<and> length ms' = length ms)"
    using stage by (intro allI impI)
  from first second third show ?thesis by (intro conjI)
qed

theorem profile_fields_default_to_empty_witness:
  "enrich_profile [(''username'', JStr ''alice'')] (JObj [(''name'', JStr ''Alice A'')]) =
     Inr [(''username'', JStr ''alice''), (''name'', JStr ''Alice A''),
          (''location'', JStr []), (''status'', JStr [])] \<and>
   profile_member (\<lambda>call url. Body (JObj [(''name'', JStr ''Alice A'')])) 1
       [(''username'', JStr ''alice'')] =
     Inr [(''username'', JStr ''alice''), (''name'', JStr ''Alice A''),
          (''location'', JStr []), (''status'', JStr [])] \<and>
   (\<exists>ms'. profile_stage (\<lambda>call url. Body (JObj [(''name'', JStr ''Alice A'')])) 1
       [[(''username'', JStr ''Bob'')], [(''username'', JStr ''alice'')]] = Inr ms' \<and>
       length ms' = 2)"
proof -
  let ?m = "[(''username'', JStr ''alice'')]"
  let ?d = "[(''name'', JStr ''Alice A'')]"
  let ?net = "\<lambda>(call::nat) (url::string). Body (JObj ?d)"
  let ?ms = "[[(''username'', JStr ''Bob'')], [(''username'', JStr ''alice'')]]"
  note t = profile_fields_default_to_empty [of ?m ?d]
  have u: "map_of ?m ''username'' = Some (JStr ''alice'')"
    by simp
  have all: "\<forall>i < length ?ms. \<exists>u di. map_of (?ms ! i) ''username'' = Some (JStr u) \<and>
                               ?net (1 + i) (profile_url u) = Body (JObj di)"
    by (simp add: All_less_Suc2 numeral_2_eq_2)
  have e: "enrich_profile ?m (JObj ?d) =
     Inr [(''username'', JStr ''alice''), (''name'', JStr ''Alice A''),
          (''location'', JStr []), (''status'', JStr [])]"
    by (simp add: enrich_profile_def get_or_empty_def dict_get_def dict_set_def EMPTY_def)
  from t have "\<forall>net call u.
      map_of ?m ''username'' = Some (JStr u) \<and> net call (profile_url u) = Body (JObj ?d) \<longrightarrow>
      profile_member net call ?m = uncaught (enrich_profile ?m (JObj ?d)) \<and>
      (\<exists>m'. profile_member net call ?m = Inr m')"
    by (elim conjE)
  from this [rule_format, of "''alice''" ?net 1] u
  have "profile_member ?net 1 ?m = uncaught (enrich_profile ?m (JObj ?d))"
    by simp
  with e have p: "profile_member ?net 1 ?m =
     Inr [(''username'', JStr ''alice''), (''name'', JStr ''Alice A''),
          (''location'', JStr []), (''status'', JStr [])]"
    by (simp add: uncaught_def)
  from t have "\<forall>net call ms.
      (\<forall>i < length ms. \<exists>u di. map_of (ms ! i) ''username'' = Some (JStr u) \<and>
                               net (call + i) (profile_url u) = Body (JObj di)) \<longrightarrow>
      (\<exists>ms'. profile_stage net call ms = Inr ms' \<and> length ms' = length ms)"
    by (elim conjE)
  from this [rule_format, of ?ms ?net 1] all
  have "\<exists>ms'. profile_stage ?net 1 ?ms = Inr ms' \<and> length ms' = length ?ms"
    by simp
  with e p show ?thesis by (simp add: numeral_2_eq_2)
qed

section \<open>The turn of one member and the run\<close>

lemma str_add_Inr_iff: "str_add p v = Inr s \<longleftrightarrow> (\<exists>u. v = JStr u \<and> s = p @ u)"
  by (cases v) auto

lemma fetch_json_Inl_iff: "fetch_json r = Inl a \<longleftrightarrow>
    r = Unreachable \<and> a = SystemExit 1 \<or> r = Garbage \<and> a = Uncaught ValueError"
  by (cases r) auto

lemma uncaught_Inr_iff: "uncaught r = Inr v \<longleftrightarrow> r = Inr v"
  by (cases r) (auto simp: uncaught_def)

lemma uncaught_Inl_iff: "uncaught r = Inl a \<longleftrightarrow> (\<exists>e. r = Inl e \<and> a = Uncaught e)"
  by (cases r) (auto simp: uncaught_def)

lemma profile_request_Inr_iff:
  "profile_request m = Inr url \<longleftrightarrow>
   (\<exists>u. map_of m ''username'' = Some (JStr u) \<and> url = profile_url u)"
  by (auto simp: profile_request_def dict_get_def profile_url_def str_add_Inr_iff
      split: option.splits)

lemma stats_request_Inr_iff:
  "stats_request m = Inr url \<longleftrightarrow>
   (\<exists>u. map_of m ''username'' = Some (JStr u) \<and> url = stats_url u)"
  by (auto simp: stats_request_def dict_get_def stats_url_def str_add_Inr_iff
      split: option.splits sum.splits)

lemma profile_member_Inr_iff:
  "profile_member net call m = Inr m' \<longleftrightarrow>
   (\<exists>u pd. map_of m ''username'' = Some (JStr u) \<and> net call (profile_url u) = Body pd \<and>
           enrich_profile m pd = Inr m')"
proof (cases "profile_request m")
  case (Inl e)
  then have "\<not> (\<exists>u. map_of m ''username'' = Some (JStr u))"
    using profile_request_str [of m] by auto
  with Inl show ?thesis by (simp add: profile_member_def)
next
  case (Inr url)
  then obtain u where u: "map_of m ''username'' = Some (JStr u)" and url: "url = profile_url u"
    by (auto simp: profile_request_Inr_iff)
  show ?thesis
    using Inr u url
    by (cases "net call (profile_url u)")
      (auto simp: profile_member_def uncaught_Inr_iff)
qed

lemma stats_member_Inr_iff:
  "stats_member net call m = Inr m' \<longleftrightarrow>
   (\<exists>u pd. map_of m ''username'' = Some (JStr u) \<and> net call (stats_url u) = Body pd \<and>
           enrich_stats m pd = Inr m')"
proof (cases "stats_request m")
  case (Inl e)
  then have "\<not> (\<exists>u. map_of m ''username'' = Some (JStr u))"
    using stats_request_str [of m] by auto
  with Inl show ?thesis by (simp add: stats_member_def)
next
  case (Inr url)
  then obtain u where u: "map_of m ''username'' = Some (JStr u)" and url: "url = stats_url u"
    by (auto simp: stats_request_Inr_iff)
  show ?thesis
    using Inr u url
    by (cases "net call (stats_url u)")
      (auto simp: stats_member_def uncaught_Inr_iff)
qed

lemma pipeline_Inr_iff:
  "pipeline net = Inr ms \<longleftrightarrow>
   (\<exists>r ms0 ms1. net 0 roster_url = Body r \<and> load_roster r = Inr ms0 \<and>
       profile_stage net 1 ms0 = Inr ms1 \<and> stats_stage net (Suc (length ms0)) ms1 = Inr ms)"
proof (cases "net 0 roster_url")
  case (Body r)
  show ?thesis
  proof (cases "load_roster r")
    case (Inl e)
    with Body show ?thesis by (simp add: pipeline_def uncaught_def)
  next
    case (Inr ms0)
    with Body show ?thesis
      by (cases "profile_stage net 1 ms0") (simp_all add: pipeline_def uncaught_def)
  qed
qed (simp_all add: pipeline_def)

lemma enrich_stats_username:
  "enrich_stats m pd = Inr m' \<Longrightarrow> map_of m' ''username'' = map_of m ''username''"
  using username_not_nested by (intro enrich_stats_other) simp_all

lemma enrich_profile_username:
  "enrich_profile m pd = Inr m' \<Longrightarrow> map_of m' ''username'' = map_of m ''username''"
  by (rule enrich_profile_other) simp_all

text \<open>What a run that reaches the report has done for the member at each position.\<close>

lemma pipeline_members:
  assumes "pipeline net = Inr ms"
  shows "\<exists>r ms0 ms1.
    net 0 roster_url = Body r \<and> load_roster r = Inr ms0 \<and>
    profile_stage net 1 ms0 = Inr ms1 \<and> stats_stage net (Suc (length ms0)) ms1 = Inr ms \<and>
    length ms0 = length ms \<and> length ms1 = length ms \<and>
    (\<forall>i < length ms.
       \<exists>u pr st. map_of (ms0 ! i) ''username'' = Some (JStr u) \<and>
                 map_of (ms1 ! i) ''username'' = Some (JStr u) \<and>
                 map_of (ms ! i) ''username'' = Some (JStr u) \<and>
                 net (Suc i) (profile_url u) = Body pr \<and>
                 enrich_profile (ms0 ! i) pr = Inr (ms1 ! i) \<and>
                 net (Suc (length ms + i)) (stats_url u) = Body st \<and>
                 enrich_stats (ms1 ! i) st = Inr (ms ! i))"
proof -
  from assms obtain r ms0 ms1 where r: "net 0 roster_url = Body r"
    and l: "load_roster r = Inr ms0"
    and p: "profile_stage net 1 ms0 = Inr ms1"
    and s: "stats_stage net (Suc (length ms0)) ms1 = Inr ms"
    by (auto simp: pipeline_Inr_iff)
  from p have lp: "length ms1 = length ms0"
    and ap: "\<And>i. i < length ms0 \<Longrightarrow> profile_member net (1 + i) (ms0 ! i) = Inr (ms1 ! i)"
    by (simp_all add: profile_stage_def for_members_Inr_iff)
  from s have ls: "length ms = length ms1"
    and as: "\<And>i. i < length ms1 \<Longrightarrow>
        stats_member net (Suc (length ms0) + i) (ms1 ! i) = Inr (ms ! i)"
    by (simp_all add: stats_stage_def for_members_Inr_iff)
  have each: "\<exists>u pr st. map_of (ms0 ! i) ''username'' = Some (JStr u) \<and>
                 map_of (ms1 ! i) ''username'' = Some (JStr u) \<and>
                 map_of (ms ! i) ''username'' = Some (JStr u) \<and>
                 net (Suc i) (profile_url u) = Body pr \<and>
                 enrich_profile (ms0 ! i) pr = Inr (ms1 ! i) \<and>
                 net (Suc (length ms + i)) (stats_url u) = Body st \<and>
                 enrich_stats (ms1 ! i) st = Inr (ms ! i)"
    if i: "i < length ms" for i
  proof -
    from i lp ls have i0: "i < length ms0" and i1: "i < length ms1" by simp_all
    from ap [OF i0] obtain u pr where u0: "map_of (ms0 ! i) ''username'' = Some (JStr u)"
      and npr: "net (Suc i) (profile_url u) = Body pr"
      and epr: "enrich_profile (ms0 ! i) pr = Inr (ms1 ! i)"
      by (auto simp: profile_member_Inr_iff)
    from enrich_profile_username [OF epr] u0
    have u1: "map_of (ms1 ! i) ''username'' = Some (JStr u)" by simp
    from as [OF i1] u1 obtain st where nst: "net (Suc (length ms0) + i) (stats_url u) = Body st"
      and est: "enrich_stats (ms1 ! i) st = Inr (ms ! i)"
      by (auto simp: stats_member_Inr_iff)
    from enrich_stats_username [OF est] u1
    have u2: "map_of (ms ! i) ''username'' = Some (JStr u)" by simp
    from nst lp ls have "net (Suc (length ms + i)) (stats_url u) = Body st" by simp
    with u0 u1 u2 npr epr est show ?thesis by blast
  qed
  from lp ls have "length ms0 = length ms" "length ms1 = length ms" by simp_all
  with r l p s each show ?thesis by blast
qed

section \<open>What the attributes hold\<close>

lemma get_or_empty_Inr:
  "get_or_empty pd k = Inr v \<Longrightarrow>
   v = (case py_getitem pd k of Inl e \<Rightarrow> EMPTY | Inr w \<Rightarrow> w)"
  by (cases pd) (auto simp: get_or_empty_def dict_get_def split: if_splits option.splits)

lemma enrich_profile_lookup:
  assumes "enrich_profile m pd = Inr m'" and "k \<in> {''name'', ''location'', ''status''}"
  shows "map_of m' k = Some (case py_getitem pd k of Inl e \<Rightarrow> EMPTY | Inr w \<Rightarrow> w)"
proof -
  from assms(1) obtain n l s where n: "get_or_empty pd ''name'' = Inr n"
    and l: "get_or_empty pd ''location'' = Inr l"
    and s: "get_or_empty pd ''status'' = Inr s"
    and m': "m' = dict_set ''status'' s (dict_set ''location'' l (dict_set ''name'' n m))"
    by (auto simp: enrich_profile_def split: sum.splits)
  from assms(2) get_or_empty_Inr [OF n] get_or_empty_Inr [OF l] get_or_empty_Inr [OF s]
  show ?thesis unfolding m' by (auto simp: map_of_dict_set)
qed

lemma enrich_stats_fide_lookup:
  assumes "enrich_stats m pd = Inr m'"
  shows "map_of m' ''fide'' =
     Some (case py_getitem pd ''fide'' of
             Inl e \<Rightarrow> EMPTY
           | Inr w \<Rightarrow> if py_eq_zero w then EMPTY else w)"
proof -
  from assms obtain m1 where m1: "set_fide m pd = Inr m1"
    by (auto simp: enrich_stats_def split: sum.splits)
  then obtain v where v: "get_or_empty pd ''fide'' = Inr v"
    and m1': "m1 = (if py_eq_zero v then dict_set ''fide'' EMPTY (dict_set ''fide'' v m)
                    else dict_set ''fide'' v m)"
    by (auto simp: set_fide_def Let_def split: sum.splits)
  have "map_of m1 ''fide'' = Some (if py_eq_zero v then EMPTY else v)"
    unfolding m1' by (simp add: map_of_dict_set)
  moreover have "py_eq_zero EMPTY = False" by (simp add: EMPTY_def)
  ultimately show ?thesis
    using enrich_stats_fide [OF assms m1] get_or_empty_Inr [OF v]
    by (auto split: sum.splits)
qed

lemma field_value_Inr:
  "field_value pd (k1, k2, k3) = Inr v \<Longrightarrow>
   v = (case path3 pd k1 k2 k3 of Inl e \<Rightarrow> EMPTY | Inr w \<Rightarrow> w)"
  using path3_cases [of pd k1 k2 k3] by auto

lemma optional_attributes_set:
  "k \<in> set optional_attributes \<longleftrightarrow>
   k \<in> {''name'', ''location'', ''status''} \<or> k = ''fide'' \<or> k \<in> fst ` set nested_fields"
  by (auto simp: optional_attributes_def nested_fields_def rating_lists_def)

lemma profile_keys_not_nested:
  "k \<in> {''name'', ''location'', ''status''} \<Longrightarrow> k \<noteq> ''fide'' \<and> k \<notin> fst ` set nested_fields"
  by (auto simp: nested_fields_def rating_lists_def)

lemma member_attributes:
  assumes pr: "enrich_profile m pr = Inr mp" and st: "enrich_stats mp st = Inr m'"
    and k: "k \<in> set optional_attributes"
  shows "map_of m' k =
     Some (case source_value pr st k of
             Inl e \<Rightarrow> EMPTY
           | Inr w \<Rightarrow> if k = ''fide'' \<and> py_eq_zero w then EMPTY else w)"
proof -
  from k consider "k \<in> {''name'', ''location'', ''status''}" | "k = ''fide''"
    | "k \<notin> {''name'', ''location'', ''status''}" "k \<noteq> ''fide''" "k \<in> fst ` set nested_fields"
    by (auto simp: optional_attributes_set)
  then show ?thesis
  proof cases
    case 1
    from profile_keys_not_nested [OF 1] have nf: "k \<noteq> ''fide''" "k \<notin> fst ` set nested_fields"
      by simp_all
    from 1 have sv: "source_value pr st k = py_getitem pr k"
      by (auto simp: source_value_def)
    have "map_of m' k = map_of mp k" using st nf by (rule enrich_stats_other)
    also have "\<dots> = Some (case py_getitem pr k of Inl e \<Rightarrow> EMPTY | Inr w \<Rightarrow> w)"
      using pr 1 by (rule enrich_profile_lookup)
    finally show ?thesis using sv nf by (simp split: sum.splits)
  next
    case 2
    then have sv: "source_value pr st k = py_getitem st ''fide''"
      by (simp add: source_value_def)
    from enrich_stats_fide_lookup [OF st] 2 sv show ?thesis
      by (simp split: sum.splits)
  next
    case 3
    from 3(3) obtain k2 k3 where f: "(k, k2, k3) \<in> set nested_fields" by force
    with distinct_nested_fields have "map_of nested_fields k = Some (k2, k3)"
      by simp
    with 3 have sv: "source_value pr st k = path3 st k k2 k3"
      by (auto simp: source_value_def)
    from enrich_stats_lookup [OF st f] obtain v where
      v: "field_value st (k, k2, k3) = Inr v" and l: "map_of m' k = Some v"
      by blast
    from field_value_Inr [OF v] l sv 3(2) show ?thesis
      by (simp split: sum.splits)
  qed
qed

text \<open>
  C9, as the code has it. After the two enrichment stages of a run that reaches the
  report, each optional attribute of each record is present and holds the empty sentinel
  or the value found at the attribute's place in the response, unchanged; \<^verbatim>\<open>fide\<close> holds
  the sentinel when that value equals zero. A \<^verbatim>\<open>null\<close> in the response is therefore
  stored as \<^verbatim>\<open>null\<close>: the record is free of \<^verbatim>\<open>null\<close> exactly when the responses carry no
  \<^verbatim>\<open>null\<close> at the places of the attributes.
\<close>

theorem attributes_hold_source_or_empty:
  assumes run: "pipeline net = Inr ms" and i: "i < length ms"
  shows "\<exists>u pr st.
           map_of (ms ! i) ''username'' = Some (JStr u) \<and>
           net (Suc i) (profile_url u) = Body pr \<and>
           net (Suc (length ms + i)) (stats_url u) = Body st \<and>
           (\<forall>k \<in> set optional_attributes.
              map_of (ms ! i) k =
                Some (case source_value pr st k of
                        Inl e \<Rightarrow> EMPTY
                      | Inr w \<Rightarrow> if k = ''fide'' \<and> py_eq_zero w then EMPTY else w)) \<and>
           (attributes_null_free (ms ! i) \<longleftrightarrow>
              (\<forall>k \<in> set optional_attributes. source_value pr st k \<noteq> Inr JNull))"
proof -
  from pipeline_members [OF run] obtain ms0 ms1 where
    each: "\<forall>i < length ms.
       \<exists>u pr st. map_of (ms0 ! i) ''username'' = Some (JStr u) \<and>
                 map_of (ms1 ! i) ''username'' = Some (JStr u) \<and>
                 map_of (ms ! i) ''username'' = Some (JStr u) \<and>
                 net (Suc i) (profile_url u) = Body pr \<and>
                 enrich_profile (ms0 ! i) pr = Inr (ms1 ! i) \<and>
                 net (Suc (length ms + i)) (stats_url u) = Body st \<and>
                 enrich_stats (ms1 ! i) st = Inr (ms ! i)"
    by blast
  from each i obtain u pr st where
    u: "map_of (ms ! i) ''username'' = Some (JStr u)"
    and npr: "net (Suc i) (profile_url u) = Body pr"
    and epr: "enrich_profile (ms0 ! i) pr = Inr (ms1 ! i)"
    and nst: "net (Suc (length ms + i)) (stats_url u) = Body st"
    and est: "enrich_stats (ms1 ! i) st = Inr (ms ! i)"
    by blast
  let ?stored = "\<lambda>k. case source_value pr st k of
                        Inl e \<Rightarrow> EMPTY
                      | Inr w \<Rightarrow> if k = ''fide'' \<and> py_eq_zero w then EMPTY else w"
  have attrs: "\<forall>k \<in> set optional_attributes. map_of (ms ! i) k = Some (?stored k)"
    using member_attributes [OF epr est] by blast
  have null: "?stored k = JNull \<longleftrightarrow> source_value pr st k = Inr JNull" for k
    by (auto simp: EMPTY_def split: sum.splits)
  have "attributes_null_free (ms ! i) \<longleftrightarrow>
        (\<forall>k \<in> set optional_attributes. map_of (ms ! i) k \<noteq> None \<and> map_of (ms ! i) k \<noteq> Some JNull)"
    by (simp add: attributes_null_free_def list_all_iff)
  also have "\<dots> \<longleftrightarrow> (\<forall>k \<in> set optional_attributes. ?stored k \<noteq> JNull)"
    using attrs by auto
  also have "\<dots> \<longleftrightarrow> (\<forall>k \<in> set optional_attributes. source_value pr st k \<noteq> Inr JNull)"
    by (simp only: null)
  finally have free: "attributes_null_free (ms ! i) \<longleftrightarrow>
      (\<forall>k \<in> set optional_attributes. source_value pr st k \<noteq> Inr JNull)" .
  from u npr nst attrs free show ?thesis by blast
qed

theorem null_is_stored_counterexample:
  "pipeline null_name_network = Inr [null_name_record] \<and>
   map_of null_name_record ''name'' = Some JNull \<and>
   JNull \<noteq> EMPTY \<and>
   \<not> attributes_null_free null_name_record"
  by code_simp

theorem attributes_hold_source_or_empty_witness:
  "pipeline null_name_network = Inr [null_name_record] \<and>
   0 < length [null_name_record] \<and>
   map_of null_name_record ''name'' = Some JNull \<and>
   source_value (JObj [(''name'', JNull)]) (JObj []) ''name'' = Inr JNull \<and>
   map_of null_name_record ''tactics'' = Some EMPTY \<and>
   source_value (JObj [(''name'', JNull)]) (JObj []) ''tactics'' = Inl KeyError"
proof -
  have p: "pipeline null_name_network = Inr [null_name_record]"
    by code_simp
  have l: "0 < length [null_name_record]"
    by simp
  have n: "''name'' \<in> set optional_attributes" and t: "''tactics'' \<in> set optional_attributes"
    by (simp_all add: optional_attributes_def)
  from attributes_hold_source_or_empty [OF p l] obtain u pr st where
    u: "map_of ([null_name_record] ! 0) ''username'' = Some (JStr u)"
    and pr: "null_name_network (Suc 0) (profile_url u) = Body pr"
    and st: "null_name_network (Suc (length [null_name_record] + 0)) (stats_url u) = Body st"
    and a: "\<forall>k \<in> set optional_attributes.
              map_of ([null_name_record] ! 0) k =
                Some (case source_value pr st k of
                        Inl e \<Rightarrow> EMPTY
                      | Inr w \<Rightarrow> if k = ''fide'' \<and> py_eq_zero w then EMPTY else w)"
    by blast
  from pr have pr': "pr = JObj [(''name'', JNull)]"
    by (simp add: null_name_network_def)
  from st have st': "st = JObj []"
    by (simp add: null_name_network_def)
  have s1: "source_value (JObj [(''name'', JNull)]) (JObj []) ''name'' = Inr JNull"
    by (simp add: source_value_def dict_get_def)
  have s2: "source_value (JObj [(''name'', JNull)]) (JObj []) ''tactics'' = Inl KeyError"
    by (simp add: source_value_def nested_fields_def rating_lists_def path3_def dict_get_def)
  from a n have "map_of null_name_record ''name'' = Some JNull"
    unfolding pr' st' s1 by (simp add: s1)
  moreover from a t have "map_of null_name_record ''tactics'' = Some EMPTY"
    unfolding pr' st' by (simp add: s2)
  ultimately show ?thesis using p l s1 s2 by simp
qed

section \<open>The roster\<close>

lemma username_of_single: "username_of (dict_set ''username'' u []) = u"
  by (simp add: username_of_def dict_set_def)

lemma append_members_Inr:
  "append_members es acc = Inr ms \<Longrightarrow>
   ms = acc @ map (\<lambda>u. dict_set ''username'' u []) (List.map_filter element_username es)"
proof (induction es arbitrary: acc)
  case Nil
  then show ?case by (simp add: map_filter_simps)
next
  case (Cons e es)
  from Cons.prems obtain u where u: "py_getitem e ''username'' = Inr u"
    and r: "append_members es (acc @ [dict_set ''username'' u []]) = Inr ms"
    by (auto split: sum.splits)
  from u have "element_username e = Some u"
    by (cases e) (auto simp: dict_get_def split: option.splits)
  with Cons.IH [OF r] show ?case by (simp add: map_filter_simps)
qed

lemma append_members_str:
  "append_members (map JStr ks) acc = Inr ms \<Longrightarrow> ks = []"
  by (cases ks) auto

lemma append_members_chars:
  "append_members (map (\<lambda>c. JStr [c]) s) acc = Inr ms \<Longrightarrow> s = []"
  by (cases s) auto

lemma bucket_Inr:
  assumes "py_iter b = Inr es" and "append_members es acc = Inr ms"
  shows "ms = acc @ map (\<lambda>u. dict_set ''username'' u []) (bucket_usernames b)"
proof (cases b)
  case (JArr xs)
  with assms append_members_Inr [of es acc ms] show ?thesis by simp
next
  case (JObj d)
  with assms have "es = map JStr (dict_keys d)" by simp
  with assms(2) append_members_str [of "dict_keys d" acc ms] have "es = []" by simp
  with assms(2) JObj show ?thesis by simp
next
  case (JStr s)
  with assms have "es = map (\<lambda>c. JStr [c]) s" by simp
  with assms(2) append_members_chars [of s acc ms] have "es = []" by simp
  with assms(2) JStr show ?thesis by simp
qed (use assms in simp_all)

lemma collect_buckets_Inr:
  "collect_buckets bs acc = Inr ms \<Longrightarrow>
   ms = acc @ map (\<lambda>u. dict_set ''username'' u []) (concat (map bucket_usernames bs))"
proof (induction bs arbitrary: acc)
  case Nil
  then show ?case by simp
next
  case (Cons b bs)
  from Cons.prems obtain es acc' where es: "py_iter b = Inr es"
    and a: "append_members es acc = Inr acc'"
    and r: "collect_buckets bs acc' = Inr ms"
    by (auto split: sum.splits)
  from bucket_Inr [OF es a] Cons.IH [OF r] show ?case by simp
qed

lemma collect_members_Inr:
  "collect_members r = Inr ms \<Longrightarrow>
   ms = map (\<lambda>u. dict_set ''username'' u []) (roster_usernames r)"
proof -
  assume a: "collect_members r = Inr ms"
  then obtain d where r: "r = JObj d"
    by (cases r) (simp_all add: collect_members_def)
  with a have "collect_buckets (dict_values d) [] = Inr ms"
    by (simp add: collect_members_def)
  from collect_buckets_Inr [OF this] r show ?thesis by simp
qed

lemma collect_members_usernames:
  "collect_members r = Inr ms \<Longrightarrow> usernames ms = roster_usernames r"
  by (drule collect_members_Inr) (simp add: usernames_def o_def username_of_single)

text \<open>A well-formed roster is collected without an exception.\<close>

lemma append_members_wf:
  "list_all is_member_object es \<Longrightarrow> \<exists>ms. append_members es acc = Inr ms"
proof (induction es arbitrary: acc)
  case Nil
  show ?case by simp
next
  case (Cons e es)
  from Cons.prems obtain d u where "e = JObj d" "map_of d ''username'' = Some (JStr u)"
    by (cases e) (auto split: option.splits json.splits)
  then have "py_getitem e ''username'' = Inr (JStr u)" by (simp add: dict_get_def)
  moreover from Cons.prems have "list_all is_member_object es" by simp
  from Cons.IH [OF this] have
    "\<exists>ms. append_members es (acc @ [dict_set ''username'' (JStr u) []]) = Inr ms" .
  ultimately show ?case by simp
qed

lemma collect_buckets_wf:
  "list_all is_bucket bs \<Longrightarrow> \<exists>ms. collect_buckets bs acc = Inr ms"
proof (induction bs arbitrary: acc)
  case Nil
  show ?case by simp
next
  case (Cons b bs)
  from Cons.prems obtain es where b: "b = JArr es" and es: "list_all is_member_object es"
    by (cases b) auto
  from append_members_wf [OF es] obtain acc' where a: "append_members es acc = Inr acc'"
    by blast
  from Cons.prems have "list_all is_bucket bs" by simp
  from Cons.IH [OF this] obtain ms where "collect_buckets bs acc' = Inr ms" by blast
  with a b show ?case by simp
qed

lemma element_username_str:
  "is_member_object e \<Longrightarrow> \<exists>u. element_username e = Some (JStr u)"
  by (cases e) (auto split: option.splits json.splits)

lemma bucket_usernames_str:
  "is_bucket b \<Longrightarrow> list_all is_str (bucket_usernames b)"
proof (cases b)
  case (JArr es)
  assume "is_bucket b"
  with JArr have "list_all is_member_object es" by simp
  then have "list_all is_str (List.map_filter element_username es)"
  proof (induction es)
    case Nil
    show ?case by (simp add: map_filter_simps)
  next
    case (Cons e es)
    then obtain u where "element_username e = Some (JStr u)"
      using element_username_str [of e] by auto
    with Cons show ?case by (simp add: map_filter_simps)
  qed
  with JArr show ?thesis by simp
qed simp_all

lemma wf_roster_collect:
  assumes "wf_roster r"
  shows "\<exists>ms. collect_members r = Inr ms" and "list_all is_str (roster_usernames r)"
proof -
  from assms obtain d where r: "r = JObj d" and b: "list_all is_bucket (dict_values d)"
    by (cases r) auto
  from collect_buckets_wf [OF b] r show "\<exists>ms. collect_members r = Inr ms"
    by (simp add: collect_members_def)
  have "\<forall>b \<in> set (dict_values d). list_all is_str (bucket_usernames b)"
  proof
    fix x assume "x \<in> set (dict_values d)"
    with b have "is_bucket x" by (simp add: list_all_iff)
    then show "list_all is_str (bucket_usernames x)" by (rule bucket_usernames_str)
  qed
  then have "list_all is_str (concat (map bucket_usernames (dict_values d)))"
    by (auto simp: list_all_iff)
  with r show "list_all is_str (roster_usernames r)" by simp
qed

section \<open>The sort\<close>

lemma is_str_JStr: "is_str v \<Longrightarrow> JStr (str_of v) = v"
  by (cases v) simp_all

lemma map_JStr_str_of: "list_all is_str vs \<Longrightarrow> map JStr (map str_of vs) = vs"
  by (induction vs) (simp_all add: is_str_JStr)

lemma sorted_short: "length xs < 2 \<Longrightarrow> sorted xs"
  by (cases xs rule: list.exhaust [case_names Nil Cons])
    (auto simp: less_Suc_eq_le numeral_2_eq_2)

lemma sort_members_str:
  assumes "sort_members ms = Inr ms'" and "list_all (\<lambda>m. is_str (username_of m)) ms'"
  shows "sorted (map (\<lambda>m. str_of (username_of m)) ms') \<and> mset ms' = mset ms"
proof (cases "length ms < 2")
  case True
  with assms(1) have "ms' = ms" by (simp add: sort_members_def)
  with True show ?thesis by (simp add: sorted_short)
next
  case False
  show ?thesis
  proof (cases "list_all (\<lambda>m. is_str (username_of m)) ms")
    case True
    with False assms(1) have "ms' = sort_key (\<lambda>m. str_of (username_of m)) ms"
      by (simp add: sort_members_def)
    then show ?thesis by simp
  next
    case ns: False
    with False assms(1) have "ms' = sort_key (\<lambda>m. num_of (username_of m)) ms"
      by (auto simp: sort_members_def split: if_splits)
    then have "set ms' = set ms" by simp
    with assms(2) ns show ?thesis by (simp add: list_all_iff)
  qed
qed

lemma sort_members_all_str:
  assumes "list_all (\<lambda>m. is_str (username_of m)) ms"
  shows "sort_members ms = Inr (sort_key (\<lambda>m. str_of (username_of m)) ms)"
proof (cases "length ms < 2")
  case True
  then have "sorted (map (\<lambda>m. str_of (username_of m)) ms)"
    by (intro sorted_short) simp
  then have "sort_key (\<lambda>m. str_of (username_of m)) ms = ms"
    by (rule sort_key_id_if_sorted)
  with True show ?thesis by (simp add: sort_members_def)
next
  case False
  with assms show ?thesis by (simp add: sort_members_def)
qed

text \<open>
  The usernames of a loaded roster, when they are strings: the names of the response,
  sorted.
\<close>

lemma load_roster_usernames:
  assumes l: "load_roster r = Inr ms" and s: "list_all is_str (usernames ms)"
  shows "usernames ms = map JStr (sort (roster_names r))"
proof -
  from l obtain ms0 where c: "collect_members r = Inr ms0" and so: "sort_members ms0 = Inr ms"
    by (auto simp: load_roster_def split: sum.splits)
  from s have s': "list_all (\<lambda>m. is_str (username_of m)) ms"
    by (simp add: usernames_def list_all_iff)
  from sort_members_str [OF so s'] have
    sorted: "sorted (map (\<lambda>m. str_of (username_of m)) ms)" and m: "mset ms = mset ms0"
    by simp_all
  from m have "mset (map (\<lambda>m. str_of (username_of m)) ms) =
      mset (map (\<lambda>m. str_of (username_of m)) ms0)"
    by simp
  also have "map (\<lambda>m. str_of (username_of m)) ms0 = roster_names r"
  proof -
    have "map (\<lambda>m. str_of (username_of m)) ms0 = map str_of (usernames ms0)"
      by (simp add: usernames_def)
    with collect_members_usernames [OF c] show ?thesis
      by (simp add: roster_names_def)
  qed
  finally have "mset (map (\<lambda>m. str_of (username_of m)) ms) = mset (roster_names r)" .
  with sorted have "sort (roster_names r) = map (\<lambda>m. str_of (username_of m)) ms"
    by (intro properties_for_sort) simp_all
  then have "map JStr (sort (roster_names r)) = map JStr (map str_of (usernames ms))"
    by (simp add: usernames_def o_def)
  also have "\<dots> = usernames ms" using s by (rule map_JStr_str_of)
  finally show ?thesis by simp
qed

lemma insort_key_map:
  "insort_key f (g x) (map g xs) = map g (insort_key (\<lambda>y. f (g y)) x xs)"
  by (induction xs) simp_all

lemma sort_key_map:
  "sort_key f (map g xs) = map g (sort_key (\<lambda>y. f (g y)) xs)"
  by (induction xs) (simp_all add: insort_key_map)

lemma sort_remdups_iff: "sort xs = sort (remdups xs) \<longleftrightarrow> distinct xs"
proof
  assume "sort xs = sort (remdups xs)"
  then have "length (sort xs) = length (sort (remdups xs))" by simp
  then have "length (remdups xs) = length xs" by simp
  then show "distinct xs" by simp
next
  assume "distinct xs"
  then show "sort xs = sort (remdups xs)" by (simp add: distinct_remdups_id)
qed

text \<open>
  C1, as the code has it. For a roster whose buckets are sequences of member objects
  with string usernames, the loader returns one record for each listed member object,
  holding only its username, in ascending order of the usernames. The set of the
  usernames is the union over the buckets; a username listed several times is kept as
  many times, so the result is the duplicate-free sorted union exactly when no username
  is listed twice.
\<close>

theorem roster_is_sorted_listing:
  assumes wf: "wf_roster r"
  shows "\<exists>ms. load_roster r = Inr ms \<and>
           ms = map (\<lambda>s. [(''username'', JStr s)]) (sort (roster_names r)) \<and>
           usernames ms = map JStr (sort (roster_names r)) \<and>
           length ms = length (roster_names r) \<and>
           sorted (map str_of (usernames ms)) \<and>
           set (map str_of (usernames ms)) = set (roster_names r) \<and>
           (map str_of (usernames ms) = spec_identities r \<longleftrightarrow> distinct (roster_names r))"
proof -
  let ?mk = "\<lambda>u. dict_set ''username'' u []"
  from wf_roster_collect [OF wf] obtain ms0 where c: "collect_members r = Inr ms0"
    and str: "list_all is_str (roster_usernames r)"
    by blast
  from collect_members_Inr [OF c] have ms0: "ms0 = map ?mk (roster_usernames r)" .
  have "map JStr (map str_of (roster_usernames r)) = roster_usernames r"
    using str by (rule map_JStr_str_of)
  then have names: "roster_usernames r = map JStr (roster_names r)"
    unfolding roster_names_def by (rule sym)
  have ms0': "ms0 = map (\<lambda>s. [(''username'', JStr s)]) (roster_names r)"
    unfolding ms0 names by (simp add: dict_set_def)
  have "list_all (\<lambda>m. is_str (username_of m)) ms0"
    unfolding ms0' by (simp add: list_all_iff username_of_def)
  then have "sort_members ms0 = Inr (sort_key (\<lambda>m. str_of (username_of m)) ms0)"
    by (rule sort_members_all_str)
  also have "sort_key (\<lambda>m. str_of (username_of m)) ms0 =
      map (\<lambda>s. [(''username'', JStr s)]) (sort (roster_names r))"
    unfolding ms0' by (simp add: sort_key_map username_of_def)
  finally have l: "load_roster r =
      Inr (map (\<lambda>s. [(''username'', JStr s)]) (sort (roster_names r)))"
    using c by (simp add: load_roster_def)
  let ?ms = "map (\<lambda>s. [(''username'', JStr s)]) (sort (roster_names r))"
  have u: "usernames ?ms = map JStr (sort (roster_names r))"
    by (simp add: usernames_def username_of_def o_def)
  have s: "map str_of (usernames ?ms) = sort (roster_names r)"
    unfolding u by (simp add: o_def)
  have len: "length ?ms = length (roster_names r)"
    by simp
  have st: "sorted (map str_of (usernames ?ms))"
    unfolding s by simp
  have se: "set (map str_of (usernames ?ms)) = set (roster_names r)"
    unfolding s by simp
  have iff: "map str_of (usernames ?ms) = spec_identities r \<longleftrightarrow> distinct (roster_names r)"
    unfolding s spec_identities_def by (rule sort_remdups_iff)
  show ?thesis
    by (rule exI [of _ ?ms]) (use l u len st se iff in blast)
qed

theorem roster_is_sorted_listing_witness:
  "wf_roster example_roster \<and>
   load_roster example_roster =
     Inr [[(''username'', JStr ''Bob'')], [(''username'', JStr ''alice'')],
          [(''username'', JStr ''alice'')]] \<and>
   roster_names example_roster = [''alice'', ''Bob'', ''alice'']"
proof -
  have wf: "wf_roster example_roster"
    by code_simp
  have n: "roster_names example_roster = [''alice'', ''Bob'', ''alice'']"
    by code_simp
  have s: "sort [''alice'', ''Bob'', ''alice''] = [''Bob'', ''alice'', ''alice'']"
    by code_simp
  from roster_is_sorted_listing [OF wf] wf n s show ?thesis by simp
qed

theorem duplicates_are_kept_counterexample:
  "wf_roster example_roster \<and>
   load_roster example_roster =
     Inr [[(''username'', JStr ''Bob'')], [(''username'', JStr ''alice'')],
          [(''username'', JStr ''alice'')]] \<and>
   spec_identities example_roster = [''Bob'', ''alice'']"
  by code_simp

section \<open>The order of the records\<close>

lemma usernames_eq_nth:
  assumes "length xs = length ys"
    and "\<And>i. i < length ys \<Longrightarrow> map_of (xs ! i) ''username'' = map_of (ys ! i) ''username''"
  shows "usernames xs = usernames ys"
  unfolding usernames_def using assms
  by (intro nth_equalityI) (simp_all add: username_of_def)

lemma mset_roster_names:
  "mset (roster_usernames r') = mset (roster_usernames r) \<Longrightarrow>
   sort (roster_names r') = sort (roster_names r)"
proof -
  assume "mset (roster_usernames r') = mset (roster_usernames r)"
  then have "image_mset str_of (mset (roster_usernames r')) =
      image_mset str_of (mset (roster_usernames r))"
    by simp
  then have "mset (roster_names r') = mset (roster_names r)"
    by (simp add: roster_names_def)
  then have "sorted_list_of_multiset (mset (roster_names r')) =
      sorted_list_of_multiset (mset (roster_names r))"
    by simp
  then show ?thesis by (simp only: sorted_list_of_multiset_mset)
qed

lemma pipeline_order:
  assumes "pipeline net = Inr ms"
  shows "\<exists>r ms0 ms1.
      net 0 roster_url = Body r \<and> load_roster r = Inr ms0 \<and>
      profile_stage net 1 ms0 = Inr ms1 \<and> stats_stage net (Suc (length ms0)) ms1 = Inr ms \<and>
      usernames ms0 = map JStr (sort (roster_names r)) \<and>
      usernames ms1 = usernames ms0 \<and> usernames ms = usernames ms0 \<and>
      map hd (export_rows ms) = map Some (usernames ms)"
proof -
  from pipeline_members [OF assms] obtain r ms0 ms1 where
    r: "net 0 roster_url = Body r" and l: "load_roster r = Inr ms0"
    and p: "profile_stage net 1 ms0 = Inr ms1"
    and s: "stats_stage net (Suc (length ms0)) ms1 = Inr ms"
    and l0: "length ms0 = length ms" and l1: "length ms1 = length ms"
    and each: "\<forall>i < length ms.
       \<exists>u pr st. map_of (ms0 ! i) ''username'' = Some (JStr u) \<and>
                 map_of (ms1 ! i) ''username'' = Some (JStr u) \<and>
                 map_of (ms ! i) ''username'' = Some (JStr u) \<and>
                 net (Suc i) (profile_url u) = Body pr \<and>
                 enrich_profile (ms0 ! i) pr = Inr (ms1 ! i) \<and>
                 net (Suc (length ms + i)) (stats_url u) = Body st \<and>
                 enrich_stats (ms1 ! i) st = Inr (ms ! i)"
    by blast
  have u1: "usernames ms1 = usernames ms0"
    using l0 l1 each by (intro usernames_eq_nth) auto
  have u2: "usernames ms = usernames ms0"
    using l0 each by (intro usernames_eq_nth) auto
  have "list_all is_str (usernames ms0)"
    unfolding usernames_def list_all_length
  proof (intro allI impI)
    fix i assume "i < length (map username_of ms0)"
    with l0 have i: "i < length ms" by simp
    with each obtain u where "map_of (ms0 ! i) ''username'' = Some (JStr u)" by blast
    with i l0 show "is_str (map username_of ms0 ! i)" by (simp add: username_of_def)
  qed
  with l have u0: "usernames ms0 = map JStr (sort (roster_names r))"
    by (rule load_roster_usernames)
  have "map hd (export_rows ms) = map Some (usernames ms)"
  proof (intro nth_equalityI)
    show "length (map hd (export_rows ms)) = length (map Some (usernames ms))"
      by (simp add: export_rows_def usernames_def)
  next
    fix i assume "i < length (map hd (export_rows ms))"
    then have i: "i < length ms" by (simp add: export_rows_def)
    with each obtain u where "map_of (ms ! i) ''username'' = Some (JStr u)" by blast
    with i show "map hd (export_rows ms) ! i = map Some (usernames ms) ! i"
      by (simp add: export_rows_def usernames_def username_of_def columns_def)
  qed
  with r l p s u0 u1 u2 show ?thesis by blast
qed

text \<open>
  C2. In a run that reaches the report, the records are in ascending order of
  \<^verbatim>\<open>username\<close> from the moment the roster is loaded: the profile stage and the
  statistics stage leave the sequence of usernames as it is, and the rows given to the
  exporter are in that order. The order depends only on which usernames the roster
  lists, not on where the buckets list them.
\<close>

theorem record_order_is_sorted_usernames:
  assumes run: "pipeline net = Inr ms"
  shows "\<exists>r ms0 ms1.
      net 0 roster_url = Body r \<and> load_roster r = Inr ms0 \<and>
      profile_stage net 1 ms0 = Inr ms1 \<and> stats_stage net (Suc (length ms0)) ms1 = Inr ms \<and>
      usernames ms0 = map JStr (sort (roster_names r)) \<and>
      sorted (map str_of (usernames ms0)) \<and>
      usernames ms1 = usernames ms0 \<and> usernames ms = usernames ms0 \<and>
      map hd (export_rows ms) = map Some (usernames ms) \<and>
      (\<forall>net' r' ms'.
         pipeline net' = Inr ms' \<and> net' 0 roster_url = Body r' \<and>
         mset (roster_usernames r') = mset (roster_usernames r) \<longrightarrow>
         usernames ms' = usernames ms)"
proof -
  from pipeline_order [OF run] obtain r ms0 ms1 where
    r: "net 0 roster_url = Body r" and l: "load_roster r = Inr ms0"
    and p: "profile_stage net 1 ms0 = Inr ms1"
    and s: "stats_stage net (Suc (length ms0)) ms1 = Inr ms"
    and u0: "usernames ms0 = map JStr (sort (roster_names r))"
    and u1: "usernames ms1 = usernames ms0" and u2: "usernames ms = usernames ms0"
    and e: "map hd (export_rows ms) = map Some (usernames ms)"
    by blast
  have so: "sorted (map str_of (usernames ms0))"
    unfolding u0 by (simp add: o_def)
  have other: "usernames ms' = usernames ms"
    if p': "pipeline net' = Inr ms'" and r': "net' 0 roster_url = Body r'"
      and m: "mset (roster_usernames r') = mset (roster_usernames r)"
    for net' r' ms'
  proof -
    from pipeline_order [OF p'] r' have "usernames ms' = map JStr (sort (roster_names r'))"
      by auto
    also from m have "sort (roster_names r') = sort (roster_names r)"
      by (rule mset_roster_names)
    finally show ?thesis using u0 u2 by simp
  qed
  have "\<forall>net' r' ms'.
         pipeline net' = Inr ms' \<and> net' 0 roster_url = Body r' \<and>
         mset (roster_usernames r') = mset (roster_usernames r) \<longrightarrow>
         usernames ms' = usernames ms"
    using other by (intro allI impI) (elim conjE)
  with r l p s u0 so u1 u2 e show ?thesis by blast
qed

theorem record_order_is_sorted_usernames_witness:
  "pipeline example_network =
     Inr [example_record ''Bob'', example_record ''alice'', example_record ''alice''] \<and>
   roster_names example_roster = [''alice'', ''Bob'', ''alice''] \<and>
   usernames [example_record ''Bob'', example_record ''alice'', example_record ''alice''] =
     [JStr ''Bob'', JStr ''alice'', JStr ''alice''] \<and>
   map hd (export_rows [example_record ''Bob'', example_record ''alice'', example_record ''alice'']) =
     [Some (JStr ''Bob''), Some (JStr ''alice''), Some (JStr ''alice'')]"
proof -
  let ?ms = "[example_record ''Bob'', example_record ''alice'', example_record ''alice'']"
  have p: "pipeline example_network = Inr ?ms"
    by code_simp
  have n: "roster_names example_roster = [''alice'', ''Bob'', ''alice'']"
    by code_simp
  have s: "sort [''alice'', ''Bob'', ''alice''] = [''Bob'', ''alice'', ''alice'']"
    by code_simp
  from record_order_is_sorted_usernames [OF p] obtain r ms0 where
    r: "example_network 0 roster_url = Body r"
    and u0: "usernames ms0 = map JStr (sort (roster_names r))"
    and u: "usernames ?ms = usernames ms0"
    and e: "map hd (export_rows ?ms) = map Some (usernames ?ms)"
    by blast
  from r have "r = example_roster" by (simp add: example_network_def)
  with u0 u n s have "usernames ?ms = [JStr ''Bob'', JStr ''alice'', JStr ''alice'']"
    by simp
  with e p n show ?thesis by simp
qed

section \<open>Failed fetches\<close>

lemma for_members_Inl:
  "for_members body call ms = Inl a \<Longrightarrow> \<exists>i < length ms. body (call + i) (ms ! i) = Inl a"
proof (induction ms arbitrary: call)
  case Nil
  then show ?case by simp
next
  case (Cons m ms)
  show ?case
  proof (cases "body call m")
    case (Inl a')
    with Cons.prems have "a' = a" by simp
    with Inl have "body (call + 0) ((m # ms) ! 0) = Inl a" by simp
    then show ?thesis by blast
  next
    case (Inr m')
    with Cons.prems have "for_members body (Suc call) ms = Inl a"
      by (auto split: sum.splits)
    from Cons.IH [OF this] obtain i where "i < length ms"
      and "body (Suc call + i) (ms ! i) = Inl a"
      by blast
    then have "Suc i < length (m # ms)" and "body (call + Suc i) ((m # ms) ! Suc i) = Inl a"
      by simp_all
    then show ?thesis by blast
  qed
qed

lemma for_members_cong:
  "(\<And>i. i < length ms \<Longrightarrow> body (call + i) (ms ! i) = body' (call + i) (ms ! i)) \<Longrightarrow>
   for_members body call ms = for_members body' call ms"
proof (induction ms arbitrary: call)
  case Nil
  show ?case by simp
next
  case (Cons m ms)
  from Cons.prems [of 0] have h: "body call m = body' call m" by simp
  have "for_members body (Suc call) ms = for_members body' (Suc call) ms"
  proof (rule Cons.IH)
    fix i assume "i < length ms"
    then have "Suc i < length (m # ms)" by simp
    from Cons.prems [OF this] show "body (Suc call + i) (ms ! i) = body' (Suc call + i) (ms ! i)"
      by simp
  qed
  with h show ?case by (simp split: sum.splits)
qed

lemma profile_member_cong:
  "(\<And>url. net' call url = net call url) \<Longrightarrow>
   profile_member net' call m = profile_member net call m"
  by (simp add: profile_member_def split: sum.splits)

lemma stats_member_cong:
  "(\<And>url. net' call url = net call url) \<Longrightarrow>
   stats_member net' call m = stats_member net call m"
  by (simp add: stats_member_def split: sum.splits)

lemma profile_member_unreachable:
  "map_of m ''username'' = Some (JStr u) \<Longrightarrow> net call (profile_url u) = Unreachable \<Longrightarrow>
   profile_member net call m = Inl (SystemExit 1)"
  by (simp add: profile_member_def profile_request_str)

lemma stats_member_unreachable:
  "map_of m ''username'' = Some (JStr u) \<Longrightarrow> net call (stats_url u) = Unreachable \<Longrightarrow>
   stats_member net call m = Inl (SystemExit 1)"
  by (simp add: stats_member_def stats_request_str)

lemma profile_member_Inl:
  "profile_member net call m = Inl a \<Longrightarrow> a = SystemExit 1 \<or> (\<exists>e. a = Uncaught e)"
  by (auto simp: profile_member_def fetch_json_Inl_iff uncaught_Inl_iff split: sum.splits)

lemma stats_member_Inl:
  "stats_member net call m = Inl a \<Longrightarrow> a = SystemExit 1 \<or> (\<exists>e. a = Uncaught e)"
  by (auto simp: stats_member_def fetch_json_Inl_iff uncaught_Inl_iff split: sum.splits)

lemma pipeline_Inl:
  assumes "pipeline net = Inl a"
  shows "a = SystemExit 1 \<or> (\<exists>e. a = Uncaught e)"
proof (cases "fetch_json (net 0 roster_url)")
  case (Inl a')
  with assms have "a' = a" by (simp add: pipeline_def)
  with Inl show ?thesis by (auto simp: fetch_json_Inl_iff)
next
  case r: (Inr r)
  show ?thesis
  proof (cases "load_roster r")
    case (Inl e)
    with r assms show ?thesis by (auto simp: pipeline_def uncaught_def)
  next
    case l: (Inr ms0)
    show ?thesis
    proof (cases "profile_stage net 1 ms0")
      case (Inl a')
      with r l assms have "a' = a" by (simp add: pipeline_def uncaught_def)
      with Inl obtain i where "profile_member net (1 + i) (ms0 ! i) = Inl a"
        by (auto simp: profile_stage_def dest: for_members_Inl)
      then show ?thesis by (rule profile_member_Inl)
    next
      case (Inr ms1)
      with r l assms have "stats_stage net (Suc (length ms0)) ms1 = Inl a"
        by (simp add: pipeline_def uncaught_def)
      then obtain i where "stats_member net (Suc (length ms0) + i) (ms1 ! i) = Inl a"
        by (auto simp: stats_stage_def dest: for_members_Inl)
      then show ?thesis by (rule stats_member_Inl)
    qed
  qed
qed

lemma run_abort:
  "pipeline net = Inl a \<Longrightarrow> run libs net = (None, Inl a)"
  by (simp add: run_def)

lemma run_no_report:
  assumes "\<And>ms. pipeline net \<noteq> Inr ms"
  shows "fst (run libs net) = None \<and> exit_status (snd (run libs net)) = 1"
proof (cases "pipeline net")
  case (Inl a)
  from pipeline_Inl [OF Inl] run_abort [OF Inl, of libs] show ?thesis by auto
next
  case (Inr ms)
  with assms show ?thesis by blast
qed

text \<open>
  C7. A failed fetch of the roster ends the run with \<^verbatim>\<open>exit(1)\<close>. When the roster has
  been loaded and the profile or the statistics of the member at some position cannot be
  fetched, the run writes no report and ends with status 1. When that fetch is the first
  thing to go wrong, the run ends with \<^verbatim>\<open>exit(1)\<close> there, whatever the network would
  answer to any later call: no fetch is tried again.
\<close>

theorem fetch_failure_aborts_run:
  "(net 0 roster_url = Unreachable \<longrightarrow> run libs net = (None, Inl (SystemExit 1))) \<and>
   (\<forall>r ms0 i u.
      net 0 roster_url = Body r \<and> load_roster r = Inr ms0 \<and> i < length ms0 \<and>
      map_of (ms0 ! i) ''username'' = Some (JStr u) \<and>
      (net (Suc i) (profile_url u) = Unreachable \<or>
       net (Suc (length ms0 + i)) (stats_url u) = Unreachable) \<longrightarrow>
      fst (run libs net) = None \<and> exit_status (snd (run libs net)) = 1) \<and>
   (\<forall>r ms0 i u net'.
      net 0 roster_url = Body r \<and> load_roster r = Inr ms0 \<and> i < length ms0 \<and>
      map_of (ms0 ! i) ''username'' = Some (JStr u) \<and>
      (\<forall>j < i. \<exists>m'. profile_member net (Suc j) (ms0 ! j) = Inr m') \<and>
      net (Suc i) (profile_url u) = Unreachable \<and>
      (\<forall>c url. c \<le> Suc i \<longrightarrow> net' c url = net c url) \<longrightarrow>
      run libs net' = (None, Inl (SystemExit 1))) \<and>
   (\<forall>r ms0 ms1 i u net'.
      net 0 roster_url = Body r \<and> load_roster r = Inr ms0 \<and>
      profile_stage net 1 ms0 = Inr ms1 \<and> i < length ms1 \<and>
      map_of (ms1 ! i) ''username'' = Some (JStr u) \<and>
      (\<forall>j < i. \<exists>m'. stats_member net (Suc (length ms0 + j)) (ms1 ! j) = Inr m') \<and>
      net (Suc (length ms0 + i)) (stats_url u) = Unreachable \<and>
      (\<forall>c url. c \<le> Suc (length ms0 + i) \<longrightarrow> net' c url = net c url) \<longrightarrow>
      run libs net' = (None, Inl (SystemExit 1)))"
proof -
  have roster: "run libs net = (None, Inl (SystemExit 1))" if "net 0 roster_url = Unreachable"
    using that by (simp add: run_def pipeline_def)
  have any: "fst (run libs net) = None \<and> exit_status (snd (run libs net)) = 1"
    if r: "net 0 roster_url = Body r" and l: "load_roster r = Inr ms0" and i: "i < length ms0"
      and u: "map_of (ms0 ! i) ''username'' = Some (JStr u)"
      and f: "net (Suc i) (profile_url u) = Unreachable \<or>
              net (Suc (length ms0 + i)) (stats_url u) = Unreachable"
    for r ms0 i u
  proof (rule run_no_report)
    fix ms
    show "pipeline net \<noteq> Inr ms"
    proof
      assume "pipeline net = Inr ms"
      from pipeline_members [OF this] obtain r' ms0' where
        r': "net 0 roster_url = Body r'" and l': "load_roster r' = Inr ms0'"
        and len: "length ms0' = length ms"
        and each: "\<forall>i < length ms.
           \<exists>u pr st. map_of (ms0' ! i) ''username'' = Some (JStr u) \<and>
                 net (Suc i) (profile_url u) = Body pr \<and>
                 net (Suc (length ms + i)) (stats_url u) = Body st"
        by blast
      from r r' l l' have same: "ms0' = ms0" by simp
      with len i have "i < length ms" by simp
      with each same u obtain pr st where "net (Suc i) (profile_url u) = Body pr"
        and "net (Suc (length ms + i)) (stats_url u) = Body st"
        by auto
      with f len same show False by simp
    qed
  qed
  have profile: "run libs net' = (None, Inl (SystemExit 1))"
    if r: "net 0 roster_url = Body r" and l: "load_roster r = Inr ms0" and i: "i < length ms0"
      and u: "map_of (ms0 ! i) ''username'' = Some (JStr u)"
      and before: "\<forall>j < i. \<exists>m'. profile_member net (Suc j) (ms0 ! j) = Inr m'"
      and f: "net (Suc i) (profile_url u) = Unreachable"
      and agree: "\<forall>c url. c \<le> Suc i \<longrightarrow> net' c url = net c url"
    for r ms0 i u net'
  proof -
    from agree r have r': "net' 0 roster_url = Body r" by simp
    from agree f have "net' (1 + i) (profile_url u) = Unreachable" by simp
    with u have here: "profile_member net' (1 + i) (ms0 ! i) = Inl (SystemExit 1)"
      by (rule profile_member_unreachable)
    have "\<forall>j < i. \<exists>m'. profile_member net' (1 + j) (ms0 ! j) = Inr m'"
    proof (intro allI impI)
      fix j assume j: "j < i"
      with agree have "\<And>url. net' (1 + j) url = net (1 + j) url" by simp
      then have "profile_member net' (1 + j) (ms0 ! j) = profile_member net (1 + j) (ms0 ! j)"
        by (rule profile_member_cong)
      with before j show "\<exists>m'. profile_member net' (1 + j) (ms0 ! j) = Inr m'" by simp
    qed
    with i here have "for_members (profile_member net') 1 ms0 = Inl (SystemExit 1)"
      by (rule for_members_first_abort)
    with r' l have "pipeline net' = Inl (SystemExit 1)"
      by (simp add: pipeline_def uncaught_def profile_stage_def)
    then show ?thesis by (rule run_abort)
  qed
  have stats: "run libs net' = (None, Inl (SystemExit 1))"
    if r: "net 0 roster_url = Body r" and l: "load_roster r = Inr ms0"
      and pr: "profile_stage net 1 ms0 = Inr ms1" and i: "i < length ms1"
      and u: "map_of (ms1 ! i) ''username'' = Some (JStr u)"
      and before: "\<forall>j < i. \<exists>m'. stats_member net (Suc (length ms0 + j)) (ms1 ! j) = Inr m'"
      and f: "net (Suc (length ms0 + i)) (stats_url u) = Unreachable"
      and agree: "\<forall>c url. c \<le> Suc (length ms0 + i) \<longrightarrow> net' c url = net c url"
    for r ms0 ms1 i u net'
  proof -
    from agree r have r': "net' 0 roster_url = Body r" by simp
    from pr have len: "length ms1 = length ms0"
      by (simp add: profile_stage_def for_members_Inr_iff)
    have "for_members (profile_member net') 1 ms0 = for_members (profile_member net) 1 ms0"
    proof (rule for_members_cong)
      fix j assume "j < length ms0"
      with agree have "\<And>url. net' (1 + j) url = net (1 + j) url" by simp
      then show "profile_member net' (1 + j) (ms0 ! j) = profile_member net (1 + j) (ms0 ! j)"
        by (rule profile_member_cong)
    qed
    with pr have pr': "profile_stage net' 1 ms0 = Inr ms1"
      by (simp add: profile_stage_def)
    from agree f have "net' (Suc (length ms0) + i) (stats_url u) = Unreachable" by simp
    with u have here: "stats_member net' (Suc (length ms0) + i) (ms1 ! i) = Inl (SystemExit 1)"
      by (rule stats_member_unreachable)
    have "\<forall>j < i. \<exists>m'. stats_member net' (Suc (length ms0) + j) (ms1 ! j) = Inr m'"
    proof (intro allI impI)
      fix j assume j: "j < i"
      with agree have "\<And>url. net' (Suc (length ms0) + j) url = net (Suc (length ms0) + j) url"
        by simp
      then have "stats_member net' (Suc (length ms0) + j) (ms1 ! j) =
          stats_member net (Suc (length ms0) + j) (ms1 ! j)"
        by (rule stats_member_cong)
      with before j show "\<exists>m'. stats_member net' (Suc (length ms0) + j) (ms1 ! j) = Inr m'"
        by simp
    qed
    with i here have "for_members (stats_member net') (Suc (length ms0)) ms1 = Inl (SystemExit 1)"
      by (rule for_members_first_abort)
    with r' l pr' have "pipeline net' = Inl (SystemExit 1)"
      by (simp add: pipeline_def uncaught_def stats_stage_def)
    then show ?thesis by (rule run_abort)
  qed
  show ?thesis
  proof (intro conjI allI impI)
    assume "net 0 roster_url = Unreachable"
    then show "run libs net = (None, Inl (SystemExit 1))" by (rule roster)
  next
    fix r ms0 i u
    assume "net 0 roster_url = Body r \<and> load_roster r = Inr ms0 \<and> i < length ms0 \<and>
      map_of (ms0 ! i) ''username'' = Some (JStr u) \<and>
      (net (Suc i) (profile_url u) = Unreachable \<or>
       net (Suc (length ms0 + i)) (stats_url u) = Unreachable)"
    then have a: "fst (run libs net) = None \<and> exit_status (snd (run libs net)) = 1"
      using any [of r ms0 i u] by (elim conjE)
    from a show "fst (run libs net) = None" ..
    from a show "exit_status (snd (run libs net)) = 1" ..
  next
    fix r ms0 i u net'
    assume "net 0 roster_url = Body r \<and> load_roster r = Inr ms0 \<and> i < length ms0 \<and>
      map_of (ms0 ! i) ''username'' = Some (JStr u) \<and>
      (\<forall>j < i. \<exists>m'. profile_member net (Suc j) (ms0 ! j) = Inr m') \<and>
      net (Suc i) (profile_url u) = Unreachable \<and>
      (\<forall>c url. c \<le> Suc i \<longrightarrow> net' c url = net c url)"
    then show "run libs net' = (None, Inl (SystemExit 1))"
      using profile [of r ms0 i u net'] by (elim conjE)
  next
    fix r ms0 ms1 i u net'
    assume "net 0 roster_url = Body r \<and> load_roster r = Inr ms0 \<and>
      profile_stage net 1 ms0 = Inr ms1 \<and> i < length ms1 \<and>
      map_of (ms1 ! i) ''username'' = Some (JStr u) \<and>
      (\<forall>j < i. \<exists>m'. stats_member net (Suc (length ms0 + j)) (ms1 ! j) = Inr m') \<and>
      net (Suc (length ms0 + i)) (stats_url u) = Unreachable \<and>
      (\<forall>c url. c \<le> Suc (length ms0 + i) \<longrightarrow> net' c url = net c url)"
    then show "run libs net' = (None, Inl (SystemExit 1))"
      using stats [of r ms0 ms1 i u net'] by (elim conjE)
  qed
qed

theorem fetch_failure_aborts_run_witness:
  "run example_libraries (failing_network 0) = (None, Inl (SystemExit 1)) \<and>
   fst (run example_libraries (failing_network 3)) = None \<and>
   exit_status (snd (run example_libraries (failing_network 3))) = 1 \<and>
   run example_libraries (failing_network 3) = (None, Inl (SystemExit 1)) \<and>
   run example_libraries (failing_network 6) = (None, Inl (SystemExit 1))"
proof -
  let ?ms0 = "[[(''username'', JStr ''Bob'')], [(''username'', JStr ''alice'')],
               [(''username'', JStr ''alice'')]]"
  let ?prof = "\<lambda>u. [(''username'', JStr u), (''name'', JStr ''A. Player''),
                    (''location'', JStr []), (''status'', JStr ''basic'')]"
  let ?ms1 = "[?prof ''Bob'', ?prof ''alice'', ?prof ''alice'']"
  have l: "load_roster example_roster = Inr ?ms0"
    by code_simp
  have r0: "failing_network 0 0 roster_url = Unreachable"
    by (simp add: failing_network_def)
  have r3: "failing_network 3 0 roster_url = Body example_roster"
    and r6: "failing_network 6 0 roster_url = Body example_roster"
    by (simp_all add: failing_network_def example_network_def)
  have f3: "failing_network 3 (Suc 2) (profile_url ''alice'') = Unreachable"
    and f6: "failing_network 6 (Suc (length ?ms0 + 2)) (stats_url ''alice'') = Unreachable"
    by (simp_all add: failing_network_def)
  have p0: "profile_member (failing_network 3) (Suc 0) (?ms0 ! 0) = Inr (?prof ''Bob'')"
    and p1: "profile_member (failing_network 3) (Suc 1) (?ms0 ! 1) = Inr (?prof ''alice'')"
    by code_simp+
  have before3: "\<forall>j < 2. \<exists>m'. profile_member (failing_network 3) (Suc j) (?ms0 ! j) = Inr m'"
    using p0 p1 by (simp add: numeral_2_eq_2 less_Suc_eq)
  have ps: "profile_stage (failing_network 6) 1 ?ms0 = Inr ?ms1"
    by code_simp
  have s0: "stats_member (failing_network 6) (Suc (length ?ms0 + 0)) (?ms1 ! 0) =
      Inr (example_record ''Bob'')"
    and s1: "stats_member (failing_network 6) (Suc (length ?ms0 + 1)) (?ms1 ! 1) =
      Inr (example_record ''alice'')"
    by code_simp+
  have before6: "\<forall>j < 2. \<exists>m'.
      stats_member (failing_network 6) (Suc (length ?ms0 + j)) (?ms1 ! j) = Inr m'"
    using s0 s1 by (simp add: numeral_2_eq_2 less_Suc_eq)
  have a: "run example_libraries (failing_network 0) = (None, Inl (SystemExit 1))"
    using fetch_failure_aborts_run [of "failing_network 0" example_libraries, THEN conjunct1] r0 by simp
  have "failing_network 3 0 roster_url = Body example_roster \<and>
      load_roster example_roster = Inr ?ms0 \<and> 2 < length ?ms0 \<and>
      map_of (?ms0 ! 2) ''username'' = Some (JStr ''alice'') \<and>
      (failing_network 3 (Suc 2) (profile_url ''alice'') = Unreachable \<or>
       failing_network 3 (Suc (length ?ms0 + 2)) (stats_url ''alice'') = Unreachable)"
    using r3 l f3 by simp
  from fetch_failure_aborts_run [of "failing_network 3" example_libraries, THEN conjunct2, THEN conjunct1,
      rule_format, OF this]
  have b: "fst (run example_libraries (failing_network 3)) = None \<and>
      exit_status (snd (run example_libraries (failing_network 3))) = 1" .
  have "failing_network 3 0 roster_url = Body example_roster \<and>
      load_roster example_roster = Inr ?ms0 \<and> 2 < length ?ms0 \<and>
      map_of (?ms0 ! 2) ''username'' = Some (JStr ''alice'') \<and>
      (\<forall>j < 2. \<exists>m'. profile_member (failing_network 3) (Suc j) (?ms0 ! j) = Inr m') \<and>
      failing_network 3 (Suc 2) (profile_url ''alice'') = Unreachable \<and>
      (\<forall>c url. c \<le> Suc 2 \<longrightarrow> failing_network 3 c url = failing_network 3 c url)"
    using r3 l f3 before3 by simp
  from fetch_failure_aborts_run [of "failing_network 3" example_libraries, THEN conjunct2, THEN conjunct2,
      THEN conjunct1, rule_format, OF this]
  have c: "run example_libraries (failing_network 3) = (None, Inl (SystemExit 1))" .
  have "failing_network 6 0 roster_url = Body example_roster \<and>
      load_roster example_roster = Inr ?ms0 \<and>
      profile_stage (failing_network 6) 1 ?ms0 = Inr ?ms1 \<and> 2 < length ?ms1 \<and>
      map_of (?ms1 ! 2) ''username'' = Some (JStr ''alice'') \<and>
      (\<forall>j < 2. \<exists>m'.
         stats_member (failing_network 6) (Suc (length ?ms0 + j)) (?ms1 ! j) = Inr m') \<and>
      failing_network 6 (Suc (length ?ms0 + 2)) (stats_url ''alice'') = Unreachable \<and>
      (\<forall>c url. c \<le> Suc (length ?ms0 + 2) \<longrightarrow> failing_network 6 c url = failing_network 6 c url)"
    using r6 l ps f6 before6 by simp
  from fetch_failure_aborts_run [of "failing_network 6" example_libraries, THEN conjunct2, THEN conjunct2,
      THEN conjunct2, rule_format, OF this]
  have d: "run example_libraries (failing_network 6) = (None, Inl (SystemExit 1))" .
  from a b c d show ?thesis by simp
qed

section \<open>The chart input\<close>

lemma rating_entry_ok:
  assumes "map_of m t = Some v" and "v = EMPTY \<or> (\<exists>n. v = JInt n)"
  shows "rating_entry p m t = Inr (case map_of m t of Some (JInt n) \<Rightarrow> n | _ \<Rightarrow> 800)"
  using assms by (auto simp: rating_entry_def dict_get_def EMPTY_def)

lemma sentinel_or_int_iff:
  "sentinel_or_int m \<longleftrightarrow>
   (\<forall>t \<in> set rating_types. \<exists>v. map_of m t = Some v \<and> (v = EMPTY \<or> (\<exists>n. v = JInt n)))"
proof -
  have "(case map_of m t of None \<Rightarrow> False | Some (JInt n) \<Rightarrow> True | Some v \<Rightarrow> v = EMPTY) \<longleftrightarrow>
      (\<exists>v. map_of m t = Some v \<and> (v = EMPTY \<or> (\<exists>n. v = JInt n)))" for t
    by (auto simp: EMPTY_def split: option.splits json.splits)
  then show ?thesis by (simp add: sentinel_or_int_def list_all_iff)
qed

lemma member_ratings_ok:
  "\<forall>t \<in> set ts. \<exists>v. map_of m t = Some v \<and> (v = EMPTY \<or> (\<exists>n. v = JInt n)) \<Longrightarrow>
   member_ratings p m ts acc =
     Inr (acc @ map (\<lambda>t. case map_of m t of Some (JInt n) \<Rightarrow> n | _ \<Rightarrow> 800) ts)"
proof (induction ts arbitrary: acc)
  case Nil
  show ?case by simp
next
  case (Cons t ts)
  from Cons.prems obtain v where "map_of m t = Some v" "v = EMPTY \<or> (\<exists>n. v = JInt n)"
    by auto
  then have e: "rating_entry p m t = Inr (case map_of m t of Some (JInt n) \<Rightarrow> n | _ \<Rightarrow> 800)"
    by (rule rating_entry_ok)
  from Cons.prems have "\<forall>t \<in> set ts. \<exists>v. map_of m t = Some v \<and> (v = EMPTY \<or> (\<exists>n. v = JInt n))"
    by simp
  from Cons.IH [OF this] e show ?case by simp
qed

lemma member_ratings_vector:
  "sentinel_or_int m \<Longrightarrow> member_ratings p m rating_types [] = Inr (rating_vector m)"
  using member_ratings_ok [of rating_types m p "[]"]
  by (simp add: sentinel_or_int_iff rating_vector_def)

lemma username_of_str:
  "is_str (username_of m) \<Longrightarrow> dict_get m ''username'' = Inr (username_of m)"
  by (auto simp: username_of_def dict_get_def split: option.splits)

lemma hash_key_str: "is_str v \<Longrightarrow> hash_key v = Inr v"
  by (cases v) simp_all

lemma fill_ratings_ok:
  "\<forall>m \<in> set ms. sentinel_or_int m \<and> is_str (username_of m) \<Longrightarrow>
   fill_ratings p ms ratings =
     Inr (fold (\<lambda>m. AList.update (username_of m) (rating_vector m)) ms ratings)"
proof (induction ms arbitrary: ratings)
  case Nil
  show ?case by simp
next
  case (Cons m ms)
  from Cons.prems have s: "sentinel_or_int m" and u: "is_str (username_of m)"
    and rest: "\<forall>m \<in> set ms. sentinel_or_int m \<and> is_str (username_of m)"
    by simp_all
  from Cons.IH [OF rest] member_ratings_vector [OF s] username_of_str [OF u] hash_key_str [OF u]
  show ?case by simp
qed

lemma map_of_fold_update:
  "map_of (fold (\<lambda>m. AList.update (key m) (val m)) ms acc) k =
     (case filter (\<lambda>m. key m = k) ms of
        [] \<Rightarrow> map_of acc k
      | f # fs \<Rightarrow> Some (val (last (f # fs))))"
proof (induction ms arbitrary: acc)
  case Nil
  show ?case by simp
next
  case (Cons m ms)
  show ?case
  proof (cases "key m = k")
    case True
    then show ?thesis
      by (cases "filter (\<lambda>m. key m = k) ms") (simp_all add: Cons.IH update_conv')
  next
    case False
    then show ?thesis
      by (cases "filter (\<lambda>m. key m = k) ms") (simp_all add: Cons.IH update_conv')
  qed
qed

lemma plot_calls_ok:
  assumes "\<forall>m \<in> set ms. is_str (username_of m) \<and> map_of ratings (username_of m) = Some (f m)"
  shows "plot_calls ratings ms = Inr (map (\<lambda>m. (username_of m, f m)) ms)"
  using assms
proof (induction ms)
  case Nil
  show ?case by simp
next
  case (Cons m ms)
  from Cons.prems have u: "is_str (username_of m)"
    and r: "map_of ratings (username_of m) = Some (f m)"
    and rest: "\<forall>m \<in> set ms. is_str (username_of m) \<and> map_of ratings (username_of m) = Some (f m)"
    by simp_all
  from Cons.IH [OF rest] r username_of_str [OF u] hash_key_str [OF u]
  show ?case by simp
qed

lemma chart_input_ok:
  assumes "\<forall>m \<in> set ms. sentinel_or_int m \<and> is_str (username_of m)"
  shows "chart_input p ms =
     Inr (map (\<lambda>m. (username_of m,
                    rating_vector (last (filter (\<lambda>m'. username_of m' = username_of m) ms)))) ms)"
proof -
  let ?ratings = "fold (\<lambda>m. AList.update (username_of m) (rating_vector m)) ms []"
  let ?f = "\<lambda>m. rating_vector (last (filter (\<lambda>m'. username_of m' = username_of m) ms))"
  have "map_of ?ratings (username_of m) = Some (?f m)" if "m \<in> set ms" for m
  proof -
    from that have "filter (\<lambda>m'. username_of m' = username_of m) ms \<noteq> []"
      by (auto simp: filter_empty_conv)
    then show ?thesis
      by (simp add: map_of_fold_update split: list.splits)
  qed
  with assms have
    "\<forall>m \<in> set ms. is_str (username_of m) \<and> map_of ?ratings (username_of m) = Some (?f m)"
    by simp
  then have "plot_calls ?ratings ms = Inr (map (\<lambda>m. (username_of m, ?f m)) ms)"
    by (rule plot_calls_ok)
  with fill_ratings_ok [OF assms, of p "[]"] show ?thesis
    by (simp add: chart_input_def)
qed

lemma last_filter_distinct:
  assumes "distinct (map key ms)" and "m \<in> set ms"
  shows "last (filter (\<lambda>m'. key m' = key m) ms) = m"
proof -
  from assms have "filter (\<lambda>m'. key m' = key m) ms = [m]"
  proof (induction ms)
    case Nil
    then show ?case by simp
  next
    case (Cons a ms)
    show ?case
    proof (cases "a = m")
      case True
      with Cons.prems(1) have "key m \<notin> key ` set ms" by simp
      then have "\<forall>m' \<in> set ms. key m' \<noteq> key m" by (metis image_eqI)
      then have "filter (\<lambda>m'. key m' = key m) ms = []" by (simp add: filter_empty_conv)
      with True show ?thesis by simp
    next
      case False
      with Cons.prems have "m \<in> set ms" and "distinct (map key ms)" by simp_all
      with Cons.IH have "filter (\<lambda>m'. key m' = key m) ms = [m]" by simp
      moreover from Cons.prems(1) have "key a \<notin> key ` set ms" by simp
      with \<open>m \<in> set ms\<close> have "key a \<noteq> key m" by (metis image_eqI)
      ultimately show ?thesis by simp
    qed
  qed
  then show ?thesis by simp
qed

text \<open>
  C6, as the code has it. For a member record whose six charted fields each hold the
  empty sentinel or an integer, the vector built in line 209 has the six entries in the
  order \<^verbatim>\<open>chess_daily\<close>, \<^verbatim>\<open>chess_rapid\<close>, \<^verbatim>\<open>chess_blitz\<close>, \<^verbatim>\<open>chess_bullet\<close>,
  \<^verbatim>\<open>chess960_daily\<close>, \<^verbatim>\<open>tactics\<close>, with 800 in the place of every sentinel and the
  integer itself otherwise. The vectors are stored under the username, and each plotting
  call is given the vector found there: that of the last record with the username, which
  is the record's own vector when the usernames are distinct.
\<close>

theorem chart_vector_replaces_empty_by_800:
  "rating_types =
     [''chess_daily'', ''chess_rapid'', ''chess_blitz'', ''chess_bullet'', ''chess960_daily'',
      ''tactics''] \<and>
   (sentinel_or_int m \<longrightarrow>
      member_ratings p m rating_types [] = Inr (rating_vector m) \<and>
      length (rating_vector m) = 6 \<and>
      (\<forall>i < 6. (map_of m (rating_types ! i) = Some EMPTY \<longrightarrow> rating_vector m ! i = 800) \<and>
               (\<forall>n. map_of m (rating_types ! i) = Some (JInt n) \<longrightarrow> rating_vector m ! i = n))) \<and>
   ((\<forall>m \<in> set ms. sentinel_or_int m \<and> is_str (username_of m)) \<longrightarrow>
      chart_input p ms =
        Inr (map (\<lambda>m. (username_of m,
               rating_vector (last (filter (\<lambda>m'. username_of m' = username_of m) ms)))) ms) \<and>
      (distinct (usernames ms) \<longrightarrow>
         chart_input p ms = Inr (map (\<lambda>m. (username_of m, rating_vector m)) ms)))"
proof -
  have types: "rating_types =
     [''chess_daily'', ''chess_rapid'', ''chess_blitz'', ''chess_bullet'', ''chess960_daily'',
      ''tactics'']"
    by (simp add: rating_types_def)
  have len: "length (rating_vector m) = 6"
    by (simp add: rating_vector_def rating_types_def)
  have entry: "(map_of m (rating_types ! i) = Some EMPTY \<longrightarrow> rating_vector m ! i = 800) \<and>
               (\<forall>n. map_of m (rating_types ! i) = Some (JInt n) \<longrightarrow> rating_vector m ! i = n)"
    if "i < 6" for i
  proof -
    from that have "i < length rating_types" by (simp add: rating_types_def)
    then have "rating_vector m ! i =
        (case map_of m (rating_types ! i) of Some (JInt n) \<Rightarrow> n | _ \<Rightarrow> 800)"
      by (simp add: rating_vector_def)
    then show ?thesis by (auto simp: EMPTY_def)
  qed
  have one: "sentinel_or_int m \<longrightarrow>
      member_ratings p m rating_types [] = Inr (rating_vector m) \<and>
      length (rating_vector m) = 6 \<and>
      (\<forall>i < 6. (map_of m (rating_types ! i) = Some EMPTY \<longrightarrow> rating_vector m ! i = 800) \<and>
               (\<forall>n. map_of m (rating_types ! i) = Some (JInt n) \<longrightarrow> rating_vector m ! i = n))"
    using member_ratings_vector [of m p] len entry by blast
  have all: "(\<forall>m \<in> set ms. sentinel_or_int m \<and> is_str (username_of m)) \<longrightarrow>
      chart_input p ms =
        Inr (map (\<lambda>m. (username_of m,
               rating_vector (last (filter (\<lambda>m'. username_of m' = username_of m) ms)))) ms) \<and>
      (distinct (usernames ms) \<longrightarrow>
         chart_input p ms = Inr (map (\<lambda>m. (username_of m, rating_vector m)) ms))"
  proof (intro impI conjI)
    assume a: "\<forall>m \<in> set ms. sentinel_or_int m \<and> is_str (username_of m)"
    then show c: "chart_input p ms =
        Inr (map (\<lambda>m. (username_of m,
               rating_vector (last (filter (\<lambda>m'. username_of m' = username_of m) ms)))) ms)"
      by (rule chart_input_ok)
    assume "distinct (usernames ms)"
    then have d: "distinct (map username_of ms)" by (simp add: usernames_def)
    have "map (\<lambda>m. (username_of m,
               rating_vector (last (filter (\<lambda>m'. username_of m' = username_of m) ms)))) ms =
          map (\<lambda>m. (username_of m, rating_vector m)) ms"
      using last_filter_distinct [OF d] by (intro map_cong) simp_all
    with c show "chart_input p ms = Inr (map (\<lambda>m. (username_of m, rating_vector m)) ms)"
      by simp
  qed
  from types one all show ?thesis by (intro conjI)
qed

theorem chart_vector_replaces_empty_by_800_witness:
  "sentinel_or_int (rated_record ''alice'' 1000) \<and>
   member_ratings no_int_of_str (rated_record ''alice'' 1000) rating_types [] =
     Inr [1000, 800, 800, 800, 800, 800] \<and>
   chart_input no_int_of_str [rated_record ''Bob'' 1000, rated_record ''alice'' 2000] =
     Inr [(JStr ''Bob'', [1000, 800, 800, 800, 800, 800]),
          (JStr ''alice'', [2000, 800, 800, 800, 800, 800])] \<and>
   chart_input no_int_of_str [rated_record ''alice'' 1000, rated_record ''alice'' 2000] =
     Inr [(JStr ''alice'', [2000, 800, 800, 800, 800, 800]),
          (JStr ''alice'', [2000, 800, 800, 800, 800, 800])]"
proof -
  let ?own = "[rated_record ''Bob'' 1000, rated_record ''alice'' 2000]"
  let ?twice = "[rated_record ''alice'' 1000, rated_record ''alice'' 2000]"
  have v: "rating_vector (rated_record u n) = [n, 800, 800, 800, 800, 800]" for u n
    by (simp add: rating_vector_def rating_types_def rated_record_def)
  have un: "username_of (rated_record u n) = JStr u" for u n
    by (simp add: username_of_def rated_record_def)
  have so: "sentinel_or_int (rated_record u n)" for u n
    by (simp add: sentinel_or_int_def rating_types_def rated_record_def EMPTY_def)
  have a1: "\<forall>m \<in> set ?own. sentinel_or_int m \<and> is_str (username_of m)"
    and a2: "\<forall>m \<in> set ?twice. sentinel_or_int m \<and> is_str (username_of m)"
    by (simp_all add: so un)
  have d1: "distinct (usernames ?own)"
    by (simp add: usernames_def un)
  note t1 = chart_vector_replaces_empty_by_800 [of "rated_record ''alice'' 1000" no_int_of_str ?own]
  note t2 = chart_vector_replaces_empty_by_800 [of "rated_record ''alice'' 1000" no_int_of_str ?twice]
  from t1 so have m: "member_ratings no_int_of_str (rated_record ''alice'' 1000) rating_types [] =
      Inr (rating_vector (rated_record ''alice'' 1000))"
    by blast
  from t1 a1 d1 have c1: "chart_input no_int_of_str ?own =
      Inr (map (\<lambda>m. (username_of m, rating_vector m)) ?own)"
    by blast
  from t2 a2 have c2: "chart_input no_int_of_str ?twice =
        Inr (map (\<lambda>m. (username_of m,
               rating_vector (last (filter (\<lambda>m'. username_of m' = username_of m) ?twice)))) ?twice)"
    by blast
  from so [of "''alice''" 1000] m c1 c2 show ?thesis
    by (simp add: v un)
qed

theorem repeated_username_counterexample:
  "pipeline changing_network = Inr [rated_record ''alice'' 1000, rated_record ''alice'' 2000] \<and>
   sentinel_or_int (rated_record ''alice'' 1000) \<and>
   rating_vector (rated_record ''alice'' 1000) = [1000, 800, 800, 800, 800, 800] \<and>
   chart_input no_int_of_str [rated_record ''alice'' 1000, rated_record ''alice'' 2000] =
     Inr [(JStr ''alice'', [2000, 800, 800, 800, 800, 800]),
          (JStr ''alice'', [2000, 800, 800, 800, 800, 800])]"
  by code_simp

end
